theory Spec2Isabelle
  imports Main "HOL-Library.Sublist"
begin

section \<open>The A3Mailer renaming script (\<^verbatim>\<open>rename_project.py\<close>)\<close>

text \<open>
  The script walks the files matching a list of glob patterns, applies a table of
  (old, new) string pairs to the text of each file with \<^verbatim>\<open>str.replace\<close>, writes a
  file back when its text changed, and prints two counters at the end.

  The embedding keeps the three layers of the source: the string primitives of Python
  that the script calls (\<^verbatim>\<open>str.replace\<close>, \<^verbatim>\<open>in\<close>, \<^verbatim>\<open>str.startswith\<close>,
  \<^verbatim>\<open>Path.parts\<close>), the function \<^verbatim>\<open>update_file_content\<close>, and the two nested loops
  of \<^verbatim>\<open>main\<close>. The file system and standard output are an explicit state.
\<close>

subsection \<open>Python's string primitives\<close>

text \<open>
  \<^verbatim>\<open>s.replace(old, new)\<close>: the occurrences of \<open>old\<close> are found from the left and do not
  overlap; the scan goes on after the end of a replaced occurrence, so the inserted
  \<open>new\<close> is never scanned again. For the empty \<open>old\<close>, Python inserts \<open>new\<close> before
  every character and at the end.
\<close>

fun str_replace :: "string \<Rightarrow> string \<Rightarrow> string \<Rightarrow> string" where
  "str_replace old new [] = (if old = [] then new else [])"
| "str_replace old new (c # cs) =
     (if old = [] then new @ c # str_replace old new cs
      else if prefix old (c # cs) then new @ str_replace old new (drop (length old) (c # cs))
      else c # str_replace old new cs)"

text \<open>\<^verbatim>\<open>sub in s\<close> on strings: \<open>sub\<close> occurs in \<open>s\<close> as a contiguous substring.\<close>

fun str_contains :: "string \<Rightarrow> string \<Rightarrow> bool" where
  "str_contains sub [] = (sub = [])"
| "str_contains sub (c # cs) = (prefix sub (c # cs) \<or> str_contains sub cs)"

text \<open>\<^verbatim>\<open>s.startswith(p)\<close>.\<close>

definition startswith :: "string \<Rightarrow> string \<Rightarrow> bool" where
  "startswith s p = prefix p s"

text \<open>\<^verbatim>\<open>s.split(sep)\<close> for a one-character separator: the result is never empty.\<close>

fun str_split :: "char \<Rightarrow> string \<Rightarrow> string list" where
  "str_split sep [] = [[]]"
| "str_split sep (c # cs) =
     (if c = sep then [] # str_split sep cs
      else (case str_split sep cs of
              [] \<Rightarrow> [[c]]
            | x # xs \<Rightarrow> (c # x) # xs))"

text \<open>
  \<^verbatim>\<open>Path(p).parts\<close> on a POSIX system. \<^verbatim>\<open>posixpath.splitroot\<close> takes the root off
  (one slash, or exactly two), the rest is split at the slashes, and the empty
  components and the components \<^verbatim>\<open>.\<close> are dropped. The root, when there is one, is the
  first part.
\<close>

definition splitroot :: "string \<Rightarrow> string \<times> string" where
  "splitroot p =
     (if take 1 p \<noteq> ''/'' then ([], p)
      else if take 1 (drop 1 p) \<noteq> ''/'' \<or> take 1 (drop 2 p) = ''/'' then (''/'', drop 1 p)
      else (take 2 p, drop 2 p))"

definition path_parts :: "string \<Rightarrow> string list" where
  "path_parts p =
     (let (root, rel) = splitroot p;
          parsed = filter (\<lambda>x. x \<noteq> [] \<and> x \<noteq> ''.'') (str_split CHR ''/'' rel)
      in if root \<noteq> [] then root # parsed else parsed)"

subsection \<open>The file system and standard output\<close>

text \<open>
  A path names a file, and distinct paths name distinct files. What the script can
  observe of a file is what \<^verbatim>\<open>open(path, 'r', encoding='utf-8').read()\<close> gives and
  whether \<^verbatim>\<open>open(path, 'w', encoding='utf-8')\<close> raises. A file holds either the
  exception that opening or decoding it raises, or its decoded characters. Both opens
  are in text mode with the default \<^verbatim>\<open>newline=None\<close>: reading translates every
  \<^verbatim>\<open>\r\n\<close> and every other \<^verbatim>\<open>\r\<close> to \<^verbatim>\<open>\n\<close>, and writing on a POSIX system stores the
  characters as they are. So a carriage return that is written is read back as a line
  feed. A write that has been opened is taken to complete, and \<^verbatim>\<open>print\<close> is taken to
  succeed; an exception at any of the two opens or at the read is a branch of
  \<^verbatim>\<open>update_file_content\<close>.

  \<^verbatim>\<open>glob.glob(pattern, recursive=True)\<close> is a function of the directory tree, which the
  script never changes: it is a field of the world.
\<close>

type_synonym path = string

datatype py_exception = OSError string | UnicodeDecodeError string

text \<open>The translation of line ends when a text file is read.\<close>

fun universal_newlines :: "string \<Rightarrow> string" where
  "universal_newlines [] = []"
| "universal_newlines [c] = (if c = CHR 0x0D then [CHR 0x0A] else [c])"
| "universal_newlines (c # d # ds) =
     (if c = CHR 0x0D then
        (if d = CHR 0x0A then CHR 0x0A # universal_newlines ds
         else CHR 0x0A # universal_newlines (d # ds))
      else c # universal_newlines (d # ds))"

record file_entry =
  decoded :: "py_exception + string"
  write_error :: "py_exception option"

text \<open>\<^verbatim>\<open>open(path, 'r', encoding='utf-8').read()\<close> on the file.\<close>

definition read_result :: "file_entry \<Rightarrow> py_exception + string" where
  "read_result f =
     (case decoded f of
        Inl e \<Rightarrow> Inl e
      | Inr characters \<Rightarrow> Inr (universal_newlines characters))"

datatype out_line =
    Starting
  | Updated path
  | ErrorUpdating path py_exception
  | Completed
  | Summary int int
  | Renamed

datatype event = OpenRead path | OpenWrite path | Print out_line

record world =
  files :: "path \<Rightarrow> file_entry"
  glob_recursive :: "string \<Rightarrow> path list"
  events :: "event list"

definition emit :: "event \<Rightarrow> world \<Rightarrow> world" where
  "emit e w = w\<lparr>events := events w @ [e]\<rparr>"

definition write_file :: "path \<Rightarrow> string \<Rightarrow> world \<Rightarrow> world" where
  "write_file p content w =
     w\<lparr>files := (files w)(p := (files w p)\<lparr>decoded := Inr content\<rparr>)\<rparr>"

text \<open>The events of a run: what \<open>w'\<close> has recorded beyond \<open>w\<close>.\<close>

definition emitted :: "world \<Rightarrow> world \<Rightarrow> event list" where
  "emitted w w' = drop (length (events w)) (events w')"

subsection \<open>\<^verbatim>\<open>update_file_content\<close>\<close>

text \<open>
  The dictionary \<^verbatim>\<open>replacements\<close> is the list of its items in insertion order, which is
  the order in which \<^verbatim>\<open>.items()\<close> iterates. The \<^verbatim>\<open>for\<close> loop over the items:
\<close>

fun apply_replacements :: "(string \<times> string) list \<Rightarrow> string \<Rightarrow> string" where
  "apply_replacements [] content = content"
| "apply_replacements ((old_text, new_text) # rest) content =
     apply_replacements rest (str_replace old_text new_text content)"

text \<open>
  The body of the \<^verbatim>\<open>try\<close>: every exception is caught by the one handler, which prints
  the error line and returns \<^verbatim>\<open>False\<close>.
\<close>

definition update_file_content ::
    "path \<Rightarrow> (string \<times> string) list \<Rightarrow> world \<Rightarrow> bool \<times> world" where
  "update_file_content file_path replacements w =
     (let w1 = emit (OpenRead file_path) w in
      case read_result (files w1 file_path) of
        Inl e \<Rightarrow> (False, emit (Print (ErrorUpdating file_path e)) w1)
      | Inr original_content \<Rightarrow>
          (let content = apply_replacements replacements original_content in
           if content \<noteq> original_content then
             (let w2 = emit (OpenWrite file_path) w1 in
              case write_error (files w2 file_path) of
                Some e \<Rightarrow> (False, emit (Print (ErrorUpdating file_path e)) w2)
              | None \<Rightarrow> (True, emit (Print (Updated file_path)) (write_file file_path content w2)))
           else (False, w1)))"

subsection \<open>\<^verbatim>\<open>main\<close>\<close>

definition replacements :: "(string \<times> string) list" where
  "replacements =
    [(''SPDX-FileCopyrightText: 2024 A3Mailer Project'',
        ''SPDX-FileCopyrightText: 2024 A3Mailer Project''),
     (''A3Mailer DAV Server'', ''A3Mailer DAV Server''),
     (''A3Mailer Mail Server'', ''A3Mailer Mail Server''),
     (''A3Mailer SMTP Server'', ''A3Mailer SMTP Server''),
     (''A3Mailer IMAP Server'', ''A3Mailer IMAP Server''),
     (''A3Mailer HTTP Server'', ''A3Mailer HTTP Server''),
     (''A3Mailer Server'', ''A3Mailer Server''),
     (''A3Mailer High-Performance Server'', ''A3Mailer High-Performance Server''),
     (''A3Mailer implementation'', ''A3Mailer implementation''),
     (''A3Mailer protocol'', ''A3Mailer protocol''),
     (''A3Mailer backend'', ''A3Mailer backend''),
     (''A3Mailer frontend'', ''A3Mailer frontend''),
     (''A3Mailer codebase'', ''A3Mailer codebase''),
     (''A3Mailer project'', ''A3Mailer project''),
     (''A3Mailer Team'', ''A3Mailer Team''),
     (''a3mailer-server'', ''a3mailer-server''),
     (''a3mailer-main'', ''a3mailer-main''),
     (''urn:a3mailer:'', ''urn:a3mailer:''),
     (''A3Mailer configuration'', ''A3Mailer configuration''),
     (''A3Mailer setup'', ''A3Mailer setup''),
     (''A3Mailer deployment'', ''A3Mailer deployment'')]"

definition file_patterns :: "string list" where
  "file_patterns =
    [''**/*.rs'', ''**/*.toml'', ''**/*.md'', ''**/*.yml'', ''**/*.yaml'',
     ''**/*.json'', ''**/*.txt'', ''**/*.sh'', ''**/*.py'']"

definition skip_list :: "string list" where
  "skip_list = [''target/'', ''node_modules/'', ''.git/'', ''__pycache__/'']"

text \<open>The two tests that \<^verbatim>\<open>continue\<close> the inner loop.\<close>

definition is_hidden :: "path \<Rightarrow> bool" where
  "is_hidden file_path = list_ex (\<lambda>part. startswith part ''.'') (path_parts file_path)"

definition is_build_artifact :: "path \<Rightarrow> bool" where
  "is_build_artifact file_path = list_ex (\<lambda>skip. str_contains skip file_path) skip_list"

record run_state =
  world_of :: world
  updated_files :: int
  total_files :: int

text \<open>
  One iteration of the inner loop, in the two steps of the source: line 101 counts the
  file, lines 102 and 103 call \<^verbatim>\<open>update_file_content\<close> and count the update.
\<close>

definition count_file :: "run_state \<Rightarrow> run_state" where
  "count_file s = s\<lparr>total_files := total_files s + 1\<rparr>"

definition update_and_count :: "(string \<times> string) list \<Rightarrow> path \<Rightarrow> run_state \<Rightarrow> run_state" where
  "update_and_count table file_path s =
     (case update_file_content file_path table (world_of s) of
        (changed, w') \<Rightarrow>
          if changed then s\<lparr>world_of := w', updated_files := updated_files s + 1\<rparr>
          else s\<lparr>world_of := w'\<rparr>)"

definition loop_body :: "(string \<times> string) list \<Rightarrow> path \<Rightarrow> run_state \<Rightarrow> run_state" where
  "loop_body table file_path s =
     (if is_hidden file_path then s
      else if is_build_artifact file_path then s
      else update_and_count table file_path (count_file s))"

fun inner_loop :: "(string \<times> string) list \<Rightarrow> path list \<Rightarrow> run_state \<Rightarrow> run_state" where
  "inner_loop table [] s = s"
| "inner_loop table (file_path # rest) s = inner_loop table rest (loop_body table file_path s)"

fun outer_loop :: "(string \<times> string) list \<Rightarrow> string list \<Rightarrow> run_state \<Rightarrow> run_state" where
  "outer_loop table [] s = s"
| "outer_loop table (pattern # rest) s =
     outer_loop table rest (inner_loop table (glob_recursive (world_of s) pattern) s)"

text \<open>
  \<^verbatim>\<open>main\<close> with its table and its patterns as parameters: the first print, the
  counters at zero, the loops, the three closing prints.
\<close>

definition start :: "world \<Rightarrow> run_state" where
  "start w = \<lparr>world_of = emit (Print Starting) w, updated_files = 0, total_files = 0\<rparr>"

definition finish :: "run_state \<Rightarrow> world" where
  "finish s =
     emit (Print Renamed)
       (emit (Print (Summary (updated_files s) (total_files s)))
          (emit (Print Completed) (world_of s)))"

definition run :: "(string \<times> string) list \<Rightarrow> string list \<Rightarrow> world \<Rightarrow> world" where
  "run table patterns w = finish (outer_loop table patterns (start w))"

definition main :: "world \<Rightarrow> world" where
  "main w = run replacements file_patterns w"

subsection \<open>Notions used in the statements\<close>

text \<open>
  A discovered path is a candidate when neither test of the inner loop skips it. The
  discovered paths of a run are the results of the globs, pattern after pattern.
\<close>

definition candidate :: "path \<Rightarrow> bool" where
  "candidate p = (\<not> is_hidden p \<and> \<not> is_build_artifact p)"

definition discovered :: "world \<Rightarrow> string list \<Rightarrow> path list" where
  "discovered w patterns = concat (map (glob_recursive w) patterns)"

text \<open>The path an event is about, and the events that are an \<^verbatim>\<open>Updated\<close> line.\<close>

fun event_path :: "event \<Rightarrow> path option" where
  "event_path (OpenRead p) = Some p"
| "event_path (OpenWrite p) = Some p"
| "event_path (Print (Updated p)) = Some p"
| "event_path (Print (ErrorUpdating p e)) = Some p"
| "event_path (Print l) = None"

fun is_updated :: "event \<Rightarrow> bool" where
  "is_updated (Print (Updated p)) = True"
| "is_updated e = False"

text \<open>
  A directory component of the path, that is a component other than the last, is named
  as one of the entries of the skip list, without its slash.
\<close>

definition in_reserved_dir :: "path \<Rightarrow> bool" where
  "in_reserved_dir p =
     list_ex (\<lambda>skip. butlast skip \<in> set (butlast (str_split CHR ''/'' p))) skip_list"

text \<open>
  The key \<open>k\<close> and the new string \<open>new\<close> cannot touch: neither occurs in the other, and
  no non-empty beginning of one is an end of the other. Then an occurrence of \<open>k\<close> in a
  text never shares a character with an inserted \<open>new\<close>, whatever stands around it.
\<close>

definition overlap_free :: "string \<Rightarrow> string \<Rightarrow> bool" where
  "overlap_free k new =
     (\<not> str_contains k new \<and> \<not> str_contains new k \<and>
      list_all (\<lambda>x. x = [] \<or> \<not> suffix x k) (prefixes new) \<and>
      list_all (\<lambda>x. x = [] \<or> \<not> prefix x k) (suffixes new))"

definition no_key_reintroduced :: "(string \<times> string) list \<Rightarrow> bool" where
  "no_key_reintroduced table =
     list_all (\<lambda>(old, new). list_all (\<lambda>(k, n). overlap_free k new) table) table"

text \<open>No new string holds a carriage return: what the table writes is read back as written.\<close>

definition no_carriage_return :: "(string \<times> string) list \<Rightarrow> bool" where
  "no_carriage_return table = list_all (\<lambda>(old, new). CHR 0x0D \<notin> set new) table"

text \<open>The file at \<open>p\<close> is one that \<^verbatim>\<open>update_file_content\<close> would rewrite.\<close>

definition would_write :: "(string \<times> string) list \<Rightarrow> world \<Rightarrow> path \<Rightarrow> bool" where
  "would_write table w p =
     (case read_result (files w p) of
        Inl e \<Rightarrow> False
      | Inr c \<Rightarrow> apply_replacements table c \<noteq> c \<and> write_error (files w p) = None)"

subsection \<open>The substitution as the specification words it\<close>

text \<open>
  Literal substitution without overlaps, for a non-empty old string: find the leftmost
  place where the old string stands, keep the text before it, put the new string, and go
  on in the text after the occurrence. The table is a left fold of these substitutions.
\<close>

definition first_occurrence :: "string \<Rightarrow> string \<Rightarrow> nat option" where
  "first_occurrence old s = List.find (\<lambda>i. prefix old (drop i s)) [0..<Suc (length s)]"

function literal_subst :: "string \<Rightarrow> string \<Rightarrow> string \<Rightarrow> string" where
  "literal_subst old new s =
     (if old = [] then s
      else (case first_occurrence old s of
              None \<Rightarrow> s
            | Some i \<Rightarrow> take i s @ new @ literal_subst old new (drop (i + length old) s)))"
  by pat_completeness auto
termination
proof (relation "measure (\<lambda>(old, new, s). length s)")
  show "wf (measure (\<lambda>(old, new, s). length s))" by simp
next
  fix old new s :: string and i :: nat
  assume "old \<noteq> []" and "first_occurrence old s = Some i"
  then have "s \<noteq> []" by (cases s) (auto simp: first_occurrence_def)
  with \<open>old \<noteq> []\<close>
  show "((old, new, drop (i + length old) s), (old, new, s)) \<in> measure (\<lambda>(old, new, s). length s)"
    by simp
qed

declare literal_subst.simps [simp del]

definition spec_applyReplacements :: "(string \<times> string) list \<Rightarrow> string \<Rightarrow> string" where
  "spec_applyReplacements table content =
     foldl (\<lambda>acc (old, new). literal_subst old new acc) content table"

subsection \<open>Example trees\<close>

definition text_file :: "string \<Rightarrow> file_entry" where
  "text_file content = \<lparr>decoded = Inr content, write_error = None\<rparr>"

definition denied_file :: file_entry where
  "denied_file =
     \<lparr>decoded = Inl (OSError ''Permission denied''),
      write_error = Some (OSError ''Permission denied'')\<rparr>"

definition missing_file :: file_entry where
  "missing_file =
     \<lparr>decoded = Inl (OSError ''No such file or directory''), write_error = None\<rparr>"

text \<open>A tree whose files all match \<^verbatim>\<open>**/*.md\<close> and no other pattern.\<close>

definition md_tree :: "(path \<times> file_entry) list \<Rightarrow> world" where
  "md_tree entries =
     \<lparr>files = (\<lambda>p. case map_of entries p of Some f \<Rightarrow> f | None \<Rightarrow> missing_file),
      glob_recursive = (\<lambda>pattern. if pattern = ''**/*.md'' then map fst entries else []),
      events = []\<rparr>"

definition example_tree :: world where
  "example_tree = md_tree
     [(''notes.md'', text_file ''See a3mailer-server for details''),
      (''docs/readme.md'', text_file ''A3Mailer DAV Server''),
      (''target/doc/index.md'', text_file ''a3mailer-server''),
      (''mytarget/a.md'', text_file ''a3mailer-server''),
      (''locked.md'', denied_file)]"

definition rename_table :: "(string \<times> string) list" where
  "rename_table = [(''a3mailer-server'', ''mailserver-core'')]"

text \<open>A tree with one file, and a table whose only new string is empty.\<close>

definition juxta_tree :: world where
  "juxta_tree = md_tree [(''notes.md'', text_file ''aabb'')]"

definition juxta_table :: "(string \<times> string) list" where
  "juxta_table = [(''ab'', [])]"

text \<open>
  A tree with one file, and a table whose first new string is a carriage return and
  whose second key is a line feed.
\<close>

definition cr_tree :: world where
  "cr_tree = md_tree [(''notes.md'', text_file ''x'')]"

definition cr_table :: "(string \<times> string) list" where
  "cr_table = [(''x'', [CHR 0x0D]), ([CHR 0x0A], ''y'')]"

section \<open>Properties of the string primitives\<close>

lemma str_contains_sublist: "str_contains sub s = sublist sub s"
  by (induction s) (auto simp: sublist_Cons_right)

lemma str_replace_absent: "\<not> str_contains old s \<Longrightarrow> str_replace old new s = s"
  by (induction s) auto

lemma str_replace_same_aux: "new = old \<Longrightarrow> str_replace old new s = s"
proof (induction old new s rule: str_replace.induct)
  case (1 old new)
  then show ?case by simp
next
  case (2 old new c cs)
  then show ?case by (auto simp: prefix_def)
qed

lemma str_replace_same: "str_replace k k s = s"
  by (simp add: str_replace_same_aux)

lemma apply_replacements_same:
  "map fst table = map snd table \<Longrightarrow> apply_replacements table content = content"
  by (induction table content rule: apply_replacements.induct) (auto simp: str_replace_same)

lemma apply_replacements_absent:
  "\<forall>(old, new) \<in> set table. \<not> str_contains old content \<Longrightarrow>
     apply_replacements table content = content"
  by (induction table content rule: apply_replacements.induct) (auto simp: str_replace_absent)

lemma apply_replacements_foldl:
  "apply_replacements table content =
     foldl (\<lambda>acc (old, new). str_replace old new acc) content table"
  by (induction table content rule: apply_replacements.induct) auto

subsection \<open>An occurrence of a key next to an inserted string\<close>

lemma overlap_freeD:
  assumes "overlap_free k new"
  shows "\<not> sublist k new" and "\<not> sublist new k"
    and "\<And>x. prefix x new \<Longrightarrow> suffix x k \<Longrightarrow> x = []"
    and "\<And>x. suffix x new \<Longrightarrow> prefix x k \<Longrightarrow> x = []"
  using assms by (auto simp: overlap_free_def str_contains_sublist list_all_iff)

lemma overlap_free_nonempty: "overlap_free k new \<Longrightarrow> k \<noteq> [] \<and> new \<noteq> []"
  by (auto dest: overlap_freeD(1,2))

lemma sublist_after_new:
  assumes "sublist k (new @ b)" and free: "overlap_free k new"
  shows "sublist k b"
proof -
  from assms(1) consider "sublist k new" | "sublist k b"
    | k1 k2 where "k = k1 @ k2" "suffix k1 new" "prefix k2 b"
    by (auto simp: sublist_append)
  then show ?thesis
  proof cases
    case 1
    with overlap_freeD(1)[OF free] show ?thesis by simp
  next
    case 2
    then show ?thesis .
  next
    case 3
    from 3(1) have "prefix k1 k" by simp
    with 3(2) have "k1 = []" by (rule overlap_freeD(4)[OF free])
    with 3 show ?thesis by auto
  qed
qed

lemma sublist_around:
  assumes "sublist k (a @ new @ b)" and free: "overlap_free k new"
  shows "sublist k a \<or> sublist k b"
proof -
  from assms(1) consider "sublist k a" | "sublist k (new @ b)"
    | k1 k2 where "k = k1 @ k2" "suffix k1 a" "prefix k2 (new @ b)"
    by (auto simp: sublist_append)
  then show ?thesis
  proof cases
    case 1
    then show ?thesis ..
  next
    case 2
    then show ?thesis using free by (auto dest: sublist_after_new)
  next
    case 3
    from 3(3) consider "prefix k2 new" | us where "k2 = new @ us"
      by (auto simp: prefix_append)
    then show ?thesis
    proof cases
      case 1
      moreover from 3(1) have "suffix k2 k" by (simp add: suffix_def)
      ultimately have "k2 = []" by (rule overlap_freeD(3)[OF free])
      with 3 show ?thesis by (auto simp: suffix_def)
    next
      case 2
      with 3(1) have "sublist new k" by (auto simp: sublist_def)
      with overlap_freeD(2)[OF free] show ?thesis by simp
    qed
  qed
qed

subsection \<open>One substitution: a key that was absent stays absent, the old string goes\<close>

lemma str_replace_keeps_absent_aux:
  assumes free: "overlap_free k new"
  shows "\<not> sublist k (u @ s) \<Longrightarrow> \<not> sublist k (u @ str_replace old new s)"
proof (induction "length s" arbitrary: s u rule: less_induct)
  case less
  from less.prems have not_u: "\<not> sublist k u" and not_s: "\<not> sublist k s"
    by (auto simp: sublist_append)
  show ?case
  proof (cases s)
    case Nil
    have "\<not> sublist k (u @ new @ [])"
      using sublist_around[OF _ free, of u "[]"] not_u not_s Nil by auto
    with Nil less.prems show ?thesis by auto
  next
    case (Cons c cs)
    consider (empty) "old = []" | (hit) "old \<noteq> []" "prefix old s"
      | (miss) "old \<noteq> []" "\<not> prefix old s"
      by blast
    then show ?thesis
    proof cases
      case empty
      have "\<not> sublist k ([c] @ cs)" using not_s Cons by simp
      then have "\<not> sublist k ([c] @ str_replace old new cs)"
        using less.hyps[of cs "[c]"] Cons by simp
      then have "\<not> sublist k (u @ new @ c # str_replace old new cs)"
        using sublist_around[OF _ free, of u "c # str_replace old new cs"] not_u by auto
      with empty Cons show ?thesis by simp
    next
      case hit
      let ?rest = "drop (length old) s"
      have "sublist ?rest s" by (rule sublist_drop)
      with not_s have "\<not> sublist k ([] @ ?rest)"
        using sublist_order.order_trans by auto
      moreover have "length ?rest < length s" using hit(1) Cons by simp
      ultimately have "\<not> sublist k ([] @ str_replace old new ?rest)"
        by (rule less.hyps[rotated])
      then have "\<not> sublist k (u @ new @ str_replace old new ?rest)"
        using sublist_around[OF _ free, of u "str_replace old new ?rest"] not_u by auto
      with hit Cons show ?thesis by simp
    next
      case miss
      have "\<not> sublist k ((u @ [c]) @ cs)" using less.prems Cons by simp
      then have "\<not> sublist k ((u @ [c]) @ str_replace old new cs)"
        using less.hyps[of cs "u @ [c]"] Cons by simp
      with miss Cons show ?thesis by simp
    qed
  qed
qed

lemma str_replace_keeps_absent:
  assumes "overlap_free k new" and "\<not> str_contains k s"
  shows "\<not> str_contains k (str_replace old new s)"
  using str_replace_keeps_absent_aux[OF assms(1), of "[]" s old] assms(2)
  by (simp add: str_contains_sublist)

lemma str_replace_removes_aux:
  assumes free: "overlap_free old new"
  shows "(\<forall>u2. suffix u2 u \<and> u2 \<noteq> [] \<longrightarrow> \<not> prefix old (u2 @ s))
           \<Longrightarrow> \<not> sublist old (u @ str_replace old new s)"
proof (induction "length s" arbitrary: s u rule: less_induct)
  case less
  have old: "old \<noteq> []" using overlap_free_nonempty[OF free] by simp
  have not_u: "\<not> sublist old u"
  proof
    assume "sublist old u"
    then obtain ps ss where "u = ps @ old @ ss" by (auto simp: sublist_def)
    then have "suffix (old @ ss) u" "old @ ss \<noteq> []" "prefix old ((old @ ss) @ s)"
      using old by (auto simp: suffix_def)
    with less.prems show False by blast
  qed
  show ?case
  proof (cases s)
    case Nil
    with not_u old show ?thesis by simp
  next
    case (Cons c cs)
    show ?thesis
    proof (cases "prefix old s")
      case True
      let ?rest = "drop (length old) s"
      have "length ?rest < length s" using old Cons by simp
      moreover have "\<forall>u2. suffix u2 [] \<and> u2 \<noteq> [] \<longrightarrow> \<not> prefix old (u2 @ ?rest)" by simp
      ultimately have "\<not> sublist old ([] @ str_replace old new ?rest)"
        by (rule less.hyps)
      then have "\<not> sublist old (u @ new @ str_replace old new ?rest)"
        using sublist_around[OF _ free, of u "str_replace old new ?rest"] not_u by auto
      with True old Cons show ?thesis by simp
    next
      case False
      have "\<forall>u2. suffix u2 (u @ [c]) \<and> u2 \<noteq> [] \<longrightarrow> \<not> prefix old (u2 @ cs)"
      proof (intro allI impI)
        fix u2 assume u2: "suffix u2 (u @ [c]) \<and> u2 \<noteq> []"
        then obtain zs where zs: "u2 = zs @ [c]" "suffix zs u" by (auto simp: suffix_snoc)
        show "\<not> prefix old (u2 @ cs)"
        proof (cases "zs = []")
          case True
          with zs False Cons show ?thesis by simp
        next
          case nonempty: False
          with zs less.prems Cons show ?thesis by simp
        qed
      qed
      then have "\<not> sublist old ((u @ [c]) @ str_replace old new cs)"
        using less.hyps[of cs "u @ [c]"] Cons by simp
      with False old Cons show ?thesis by simp
    qed
  qed
qed

lemma str_replace_removes:
  assumes "overlap_free old new"
  shows "\<not> str_contains old (str_replace old new s)"
  using str_replace_removes_aux[OF assms, of "[]" s]
  by (simp add: str_contains_sublist)

subsection \<open>The whole table\<close>

lemma apply_replacements_keeps_absent:
  assumes "\<forall>(old, new) \<in> set table. overlap_free k new"
    and "\<not> str_contains k content"
  shows "\<not> str_contains k (apply_replacements table content)"
  using assms
  by (induction table content rule: apply_replacements.induct)
     (auto simp: str_replace_keeps_absent)

lemma apply_replacements_removes_aux:
  assumes "\<forall>(old, new) \<in> set table. \<forall>k \<in> K. overlap_free k new"
    and "fst ` set table \<subseteq> K"
  shows "\<forall>k \<in> fst ` set table. \<not> str_contains k (apply_replacements table content)"
  using assms
proof (induction table content rule: apply_replacements.induct)
  case (1 content)
  then show ?case by simp
next
  case (2 old_text new_text rest content)
  let ?c = "str_replace old_text new_text content"
  have rest: "\<forall>(old, new) \<in> set rest. overlap_free old_text new"
    using 2(2,3) by fastforce
  have "\<not> str_contains old_text ?c"
    using 2(2,3) by (intro str_replace_removes) auto
  then have "\<not> str_contains old_text (apply_replacements rest ?c)"
    using rest by (rule apply_replacements_keeps_absent[rotated])
  moreover have "\<forall>k \<in> fst ` set rest. \<not> str_contains k (apply_replacements rest ?c)"
    using 2 by auto
  ultimately show ?case by auto
qed

lemma apply_replacements_removes:
  assumes "no_key_reintroduced table" and "(k, n) \<in> set table"
  shows "\<not> str_contains k (apply_replacements table content)"
proof -
  have "\<forall>(old, new) \<in> set table. \<forall>k \<in> fst ` set table. overlap_free k new"
    using assms(1) by (fastforce simp: no_key_reintroduced_def list_all_iff)
  then have "\<forall>k \<in> fst ` set table. \<not> str_contains k (apply_replacements table content)"
    by (rule apply_replacements_removes_aux) simp
  with assms(2) show ?thesis by force
qed

lemma apply_replacements_settled:
  assumes "no_key_reintroduced table"
  shows "apply_replacements table (apply_replacements table content) =
           apply_replacements table content"
  using apply_replacements_removes[OF assms]
  by (intro apply_replacements_absent) auto

section \<open>Reading a text file\<close>

lemma universal_newlines_no_CR: "CHR 0x0D \<notin> set (universal_newlines s)"
  by (induction s rule: universal_newlines.induct) auto

lemma universal_newlines_id: "CHR 0x0D \<notin> set s \<Longrightarrow> universal_newlines s = s"
  by (induction s rule: universal_newlines.induct) auto

lemma read_result_no_CR: "read_result f = Inr c \<Longrightarrow> CHR 0x0D \<notin> set c"
  by (auto simp: read_result_def universal_newlines_no_CR split: sum.splits)

lemma read_result_written:
  "read_result (f\<lparr>decoded := Inr content\<rparr>) = Inr (universal_newlines content)"
  by (simp add: read_result_def)

lemma write_error_written: "write_error (f\<lparr>decoded := x\<rparr>) = write_error f"
  by simp

lemma str_replace_no_CR:
  "CHR 0x0D \<notin> set s \<Longrightarrow> CHR 0x0D \<notin> set new \<Longrightarrow> CHR 0x0D \<notin> set (str_replace old new s)"
proof (induction old new s rule: str_replace.induct)
  case (1 old new)
  then show ?case by simp
next
  case (2 old new c cs)
  have "set (drop (length old) (c # cs)) \<subseteq> set (c # cs)" by (rule set_drop_subset)
  with 2 show ?case by auto
qed

lemma apply_replacements_no_CR:
  "CHR 0x0D \<notin> set content \<Longrightarrow> no_carriage_return table \<Longrightarrow>
     CHR 0x0D \<notin> set (apply_replacements table content)"
  by (induction table content rule: apply_replacements.induct)
     (auto simp: no_carriage_return_def str_replace_no_CR)

text \<open>What such a table writes is read back as written.\<close>

lemma apply_replacements_read_back:
  "CHR 0x0D \<notin> set content \<Longrightarrow> no_carriage_return table \<Longrightarrow>
     universal_newlines (apply_replacements table content) = apply_replacements table content"
  by (simp add: apply_replacements_no_CR universal_newlines_id)

section \<open>Properties of \<^verbatim>\<open>update_file_content\<close>\<close>

text \<open>The four ways through the function.\<close>

lemma ufc_read_error:
  assumes "read_result (files w p) = Inl e"
  shows "update_file_content p table w =
           (False, w\<lparr>events := events w @ [OpenRead p, Print (ErrorUpdating p e)]\<rparr>)"
  using assms by (simp add: update_file_content_def emit_def)

lemma ufc_unchanged:
  assumes "read_result (files w p) = Inr c" and "apply_replacements table c = c"
  shows "update_file_content p table w = (False, w\<lparr>events := events w @ [OpenRead p]\<rparr>)"
  using assms by (simp add: update_file_content_def emit_def)

lemma ufc_write_error:
  assumes "read_result (files w p) = Inr c" and "apply_replacements table c \<noteq> c"
    and "write_error (files w p) = Some e"
  shows "update_file_content p table w =
           (False, w\<lparr>events := events w @ [OpenRead p, OpenWrite p, Print (ErrorUpdating p e)]\<rparr>)"
  using assms by (simp add: update_file_content_def emit_def)

lemma ufc_written:
  assumes "read_result (files w p) = Inr c" and "apply_replacements table c \<noteq> c"
    and "write_error (files w p) = None"
  shows "update_file_content p table w =
           (True, w\<lparr>files := (files w)(p := (files w p)\<lparr>decoded := Inr (apply_replacements table c)\<rparr>),
                    events := events w @ [OpenRead p, OpenWrite p, Print (Updated p)]\<rparr>)"
  using assms by (simp add: update_file_content_def emit_def write_file_def)

lemma ufc_cases:
  obtains (read_error) e where "read_result (files w p) = Inl e"
  | (unchanged) c where "read_result (files w p) = Inr c" "apply_replacements table c = c"
  | (write_error) c e where "read_result (files w p) = Inr c" "apply_replacements table c \<noteq> c"
      "write_error (files w p) = Some e"
  | (written) c where "read_result (files w p) = Inr c" "apply_replacements table c \<noteq> c"
      "write_error (files w p) = None"
  by (cases "read_result (files w p)"; cases "write_error (files w p)") auto

lemma ufc_glob: "glob_recursive (snd (update_file_content p table w)) = glob_recursive w"
  by (cases rule: ufc_cases[where w=w and p=p and table=table])
     (simp_all add: ufc_read_error ufc_unchanged ufc_write_error ufc_written)

lemma ufc_files_other:
  "q \<noteq> p \<Longrightarrow> files (snd (update_file_content p table w)) q = files w q"
  by (cases rule: ufc_cases[where w=w and p=p and table=table])
     (simp_all add: ufc_read_error ufc_unchanged ufc_write_error ufc_written)

lemma ufc_write_error_kept:
  "write_error (files (snd (update_file_content p table w)) q) = write_error (files w q)"
  by (cases rule: ufc_cases[where w=w and p=p and table=table])
     (simp_all add: ufc_read_error ufc_unchanged ufc_write_error ufc_written)

lemma ufc_read_error_kept:
  "read_result (files w q) = Inl e \<Longrightarrow>
     read_result (files (snd (update_file_content p table w)) q) = Inl e"
  by (cases rule: ufc_cases[where w=w and p=p and table=table])
     (auto simp: ufc_read_error ufc_unchanged ufc_write_error ufc_written)

lemma ufc_false_files:
  "\<not> fst (update_file_content p table w) \<Longrightarrow>
     files (snd (update_file_content p table w)) = files w"
  by (cases rule: ufc_cases[where w=w and p=p and table=table])
     (simp_all add: ufc_read_error ufc_unchanged ufc_write_error ufc_written)

lemma ufc_events:
  "\<exists>evs. events (snd (update_file_content p table w)) = events w @ evs
        \<and> (\<forall>e \<in> set evs. event_path e = Some p)
        \<and> (fst (update_file_content p table w) \<longleftrightarrow> Print (Updated p) \<in> set evs)
        \<and> (fst (update_file_content p table w) \<longleftrightarrow> OpenWrite p \<in> set evs \<and> write_error (files w p) = None)
        \<and> OpenRead p \<in> set evs
        \<and> count_list evs (Print (Updated p)) \<le> 1"
  by (cases rule: ufc_cases[where w=w and p=p and table=table])
     (simp_all add: ufc_read_error ufc_unchanged ufc_write_error ufc_written)

section \<open>Properties of the loops\<close>

lemma loop_body_skip: "\<not> candidate p \<Longrightarrow> loop_body table p s = s"
  by (auto simp: loop_body_def candidate_def)

lemma loop_body_candidate:
  "candidate p \<Longrightarrow> loop_body table p s = update_and_count table p (count_file s)"
  by (simp add: loop_body_def candidate_def)

lemma update_and_count_world:
  "world_of (update_and_count table p s) = snd (update_file_content p table (world_of s))"
  by (simp add: update_and_count_def split: prod.splits)

lemma update_and_count_total: "total_files (update_and_count table p s) = total_files s"
  by (simp add: update_and_count_def split: prod.splits)

lemma update_and_count_updated:
  "updated_files (update_and_count table p s) =
     updated_files s + (if fst (update_file_content p table (world_of s)) then 1 else 0)"
  by (simp add: update_and_count_def split: prod.splits)

lemma count_file_simps [simp]:
  "world_of (count_file s) = world_of s"
  "updated_files (count_file s) = updated_files s"
  "total_files (count_file s) = total_files s + 1"
  by (simp_all add: count_file_def)

lemma loop_body_world:
  "world_of (loop_body table p s) =
     (if candidate p then snd (update_file_content p table (world_of s)) else world_of s)"
  by (simp add: loop_body_skip loop_body_candidate update_and_count_world)

lemma loop_body_total:
  "total_files (loop_body table p s) = total_files s + (if candidate p then 1 else 0)"
  by (simp add: loop_body_skip loop_body_candidate update_and_count_total)

lemma loop_body_updated:
  "updated_files (loop_body table p s) =
     updated_files s +
       (if candidate p \<and> fst (update_file_content p table (world_of s)) then 1 else 0)"
  by (cases "candidate p")
     (simp_all add: loop_body_skip loop_body_candidate update_and_count_updated)

lemma loop_body_glob:
  "glob_recursive (world_of (loop_body table p s)) = glob_recursive (world_of s)"
  by (simp add: loop_body_world ufc_glob)

lemma inner_loop_glob:
  "glob_recursive (world_of (inner_loop table ps s)) = glob_recursive (world_of s)"
  by (induction ps arbitrary: s) (simp_all add: loop_body_glob)

lemma inner_loop_append:
  "inner_loop table (ps @ qs) s = inner_loop table qs (inner_loop table ps s)"
  by (induction ps arbitrary: s) simp_all

lemma outer_loop_append:
  "outer_loop table (ps @ qs) s = outer_loop table qs (outer_loop table ps s)"
  by (induction ps arbitrary: s) simp_all

text \<open>The globs do not depend on what the loops did: the two loops are one.\<close>

lemma outer_loop_flat:
  "outer_loop table patterns s = inner_loop table (discovered (world_of s) patterns) s"
  by (induction patterns arbitrary: s)
     (simp_all add: discovered_def inner_loop_append inner_loop_glob)

lemma loop_body_files_other:
  "q \<noteq> p \<or> \<not> candidate p \<Longrightarrow>
     files (world_of (loop_body table p s)) q = files (world_of s) q"
  by (auto simp: loop_body_world ufc_files_other)

lemma inner_loop_files_other:
  "q \<notin> set ps \<or> \<not> candidate q \<Longrightarrow>
     files (world_of (inner_loop table ps s)) q = files (world_of s) q"
proof (induction ps arbitrary: s)
  case Nil
  then show ?case by simp
next
  case (Cons p ps)
  then have "files (world_of (loop_body table p s)) q = files (world_of s) q"
    by (intro loop_body_files_other) auto
  with Cons show ?case by auto
qed

lemma loop_body_write_error:
  "write_error (files (world_of (loop_body table p s)) q) = write_error (files (world_of s) q)"
  by (simp add: loop_body_world ufc_write_error_kept)

lemma inner_loop_write_error:
  "write_error (files (world_of (inner_loop table ps s)) q) = write_error (files (world_of s) q)"
  by (induction ps arbitrary: s) (simp_all add: loop_body_write_error)

lemma loop_body_read_error:
  "read_result (files (world_of s) q) = Inl e \<Longrightarrow>
     read_result (files (world_of (loop_body table p s)) q) = Inl e"
  by (simp add: loop_body_world ufc_read_error_kept)

lemma inner_loop_read_error:
  "read_result (files (world_of s) q) = Inl e \<Longrightarrow>
     read_result (files (world_of (inner_loop table ps s)) q) = Inl e"
  by (induction ps arbitrary: s) (simp_all add: loop_body_read_error)

text \<open>What one iteration, and then a whole loop, prints and counts.\<close>

lemma is_updated_path: "event_path e = Some p \<Longrightarrow> is_updated e = (e = Print (Updated p))"
  by (cases e rule: is_updated.cases) auto

lemma loop_body_events:
  "\<exists>evs. events (world_of (loop_body table p s)) = events (world_of s) @ evs
        \<and> (\<forall>e \<in> set evs. event_path e = Some p \<and> candidate p)
        \<and> (candidate p \<longrightarrow> OpenRead p \<in> set evs)
        \<and> updated_files (loop_body table p s) =
            updated_files s + int (length (filter is_updated evs))"
proof (cases "candidate p")
  case False
  then show ?thesis by (simp add: loop_body_skip)
next
  case True
  obtain evs where evs:
    "events (snd (update_file_content p table (world_of s))) = events (world_of s) @ evs"
    "\<forall>e \<in> set evs. event_path e = Some p"
    "fst (update_file_content p table (world_of s)) \<longleftrightarrow> Print (Updated p) \<in> set evs"
    "OpenRead p \<in> set evs"
    "count_list evs (Print (Updated p)) \<le> 1"
    using ufc_events[of p table "world_of s"] by blast
  have "filter is_updated evs = filter ((=) (Print (Updated p))) evs"
    using evs(2) by (intro filter_cong[OF refl]) (auto simp: is_updated_path)
  then have len: "length (filter is_updated evs) = count_list evs (Print (Updated p))"
    by (simp add: count_list_eq_length_filter)
  have "int (length (filter is_updated evs)) = (if Print (Updated p) \<in> set evs then 1 else 0)"
  proof (cases "Print (Updated p) \<in> set evs")
    case True
    then have "count_list evs (Print (Updated p)) \<noteq> 0" by (simp add: count_list_0_iff)
    with evs(5) len True show ?thesis by simp
  next
    case False
    then have "count_list evs (Print (Updated p)) = 0" by (simp add: count_list_0_iff)
    with len False show ?thesis by simp
  qed
  with True evs show ?thesis
    by (intro exI[of _ evs]) (simp add: loop_body_world loop_body_updated)
qed

lemma inner_loop_events:
  "\<exists>evs. events (world_of (inner_loop table ps s)) = events (world_of s) @ evs
        \<and> (\<forall>e \<in> set evs. \<forall>q. event_path e = Some q \<longrightarrow> q \<in> set ps \<and> candidate q)
        \<and> (\<forall>q \<in> set ps. candidate q \<longrightarrow> OpenRead q \<in> set evs)
        \<and> updated_files (inner_loop table ps s) =
            updated_files s + int (length (filter is_updated evs))"
proof (induction ps arbitrary: s)
  case Nil
  then show ?case by simp
next
  case (Cons p ps)
  obtain evs1 where evs1:
    "events (world_of (loop_body table p s)) = events (world_of s) @ evs1"
    "\<forall>e \<in> set evs1. event_path e = Some p \<and> candidate p"
    "candidate p \<longrightarrow> OpenRead p \<in> set evs1"
    "updated_files (loop_body table p s) =
       updated_files s + int (length (filter is_updated evs1))"
    using loop_body_events[of table p s] by blast
  obtain evs2 where evs2:
    "events (world_of (inner_loop table ps (loop_body table p s))) =
       events (world_of (loop_body table p s)) @ evs2"
    "\<forall>e \<in> set evs2. \<forall>q. event_path e = Some q \<longrightarrow> q \<in> set ps \<and> candidate q"
    "\<forall>q \<in> set ps. candidate q \<longrightarrow> OpenRead q \<in> set evs2"
    "updated_files (inner_loop table ps (loop_body table p s)) =
       updated_files (loop_body table p s) + int (length (filter is_updated evs2))"
    using Cons.IH[of "loop_body table p s"] by blast
  show ?case
    using evs1 evs2 by (intro exI[of _ "evs1 @ evs2"]) auto
qed

lemma inner_loop_total:
  "total_files (inner_loop table ps s) = total_files s + int (length (filter candidate ps))"
  by (induction ps arbitrary: s) (simp_all add: loop_body_total)

text \<open>The counters.\<close>

lemma loop_body_le:
  "updated_files s \<le> total_files s \<Longrightarrow>
     updated_files (loop_body table p s) \<le> total_files (loop_body table p s)"
  by (simp add: loop_body_total loop_body_updated)

lemma inner_loop_le:
  "updated_files s \<le> total_files s \<Longrightarrow>
     updated_files (inner_loop table ps s) \<le> total_files (inner_loop table ps s)"
  by (induction ps arbitrary: s) (simp_all add: loop_body_le)

lemma outer_loop_le:
  "updated_files s \<le> total_files s \<Longrightarrow>
     updated_files (outer_loop table patterns s) \<le> total_files (outer_loop table patterns s)"
  by (simp add: outer_loop_flat inner_loop_le)

text \<open>The first and the last prints.\<close>

lemma emitted_append: "events w' = events w @ evs \<Longrightarrow> emitted w w' = evs"
  by (simp add: emitted_def)

lemma finish_events:
  "events (finish s) = events (world_of s) @
     [Print Completed, Print (Summary (updated_files s) (total_files s)), Print Renamed]"
  by (simp add: finish_def emit_def)

lemma finish_files: "files (finish s) = files (world_of s)"
  by (simp add: finish_def emit_def)

lemma finish_glob: "glob_recursive (finish s) = glob_recursive (world_of s)"
  by (simp add: finish_def emit_def)

lemma start_simps [simp]:
  "events (world_of (start w)) = events w @ [Print Starting]"
  "files (world_of (start w)) = files w"
  "glob_recursive (world_of (start w)) = glob_recursive w"
  "updated_files (start w) = 0"
  "total_files (start w) = 0"
  by (simp_all add: start_def emit_def)

text \<open>A run, in one piece: the loop over the discovered paths between the prints.\<close>

lemma run_flat:
  "run table patterns w = finish (inner_loop table (discovered w patterns) (start w))"
  by (simp add: run_def outer_loop_flat discovered_def)

lemma run_events:
  "\<exists>evs. emitted w (run table patterns w) =
            Print Starting # evs @
              [Print Completed,
               Print (Summary (int (length (filter is_updated evs)))
                              (int (length (filter candidate (discovered w patterns))))),
               Print Renamed]
        \<and> (\<forall>e \<in> set evs. \<forall>q. event_path e = Some q \<longrightarrow>
              q \<in> set (discovered w patterns) \<and> candidate q)
        \<and> (\<forall>q \<in> set (discovered w patterns). candidate q \<longrightarrow> OpenRead q \<in> set evs)
        \<and> events (world_of (inner_loop table (discovered w patterns) (start w))) =
            events w @ Print Starting # evs"
proof -
  let ?s = "inner_loop table (discovered w patterns) (start w)"
  obtain evs where evs:
    "events (world_of ?s) = events (world_of (start w)) @ evs"
    "\<forall>e \<in> set evs. \<forall>q. event_path e = Some q \<longrightarrow> q \<in> set (discovered w patterns) \<and> candidate q"
    "\<forall>q \<in> set (discovered w patterns). candidate q \<longrightarrow> OpenRead q \<in> set evs"
    "updated_files ?s = updated_files (start w) + int (length (filter is_updated evs))"
    using inner_loop_events[of table "discovered w patterns" "start w"] by blast
  have "events (run table patterns w) =
          events w @ Print Starting # evs @
            [Print Completed,
             Print (Summary (int (length (filter is_updated evs)))
                            (int (length (filter candidate (discovered w patterns))))),
             Print Renamed]"
    using evs(1,4) by (simp add: run_flat finish_events inner_loop_total)
  then have "emitted w (run table patterns w) =
          Print Starting # evs @
            [Print Completed,
             Print (Summary (int (length (filter is_updated evs)))
                            (int (length (filter candidate (discovered w patterns))))),
             Print Renamed]"
    by (rule emitted_append)
  with evs show ?thesis by (intro exI[of _ evs]) simp
qed

section \<open>The two tests of the loop\<close>

lemma str_split_not_Nil: "str_split sep s \<noteq> []"
  by (induction s) (auto split: list.splits)

lemma str_split_first:
  "str_split sep s = x # y # ys \<Longrightarrow> prefix (x @ [sep]) s"
proof (induction s arbitrary: x y ys)
  case Nil
  then show ?case by simp
next
  case (Cons c cs)
  show ?case
  proof (cases "c = sep")
    case True
    with Cons.prems show ?thesis by auto
  next
    case False
    with Cons.prems obtain x' where x': "str_split sep cs = x' # y # ys" "x = c # x'"
      by (auto split: list.splits)
    from Cons.IH[OF x'(1)] x'(2) show ?thesis by simp
  qed
qed

lemma str_split_dir_contains:
  "d \<in> set (butlast (str_split sep s)) \<Longrightarrow> sublist (d @ [sep]) s"
proof (induction s arbitrary: d)
  case Nil
  then show ?case by simp
next
  case (Cons c cs)
  obtain x xs where split: "str_split sep (c # cs) = x # xs"
    using str_split_not_Nil[of sep "c # cs"] by (cases "str_split sep (c # cs)") auto
  with Cons.prems have "xs \<noteq> []" by auto
  then obtain y ys where xs: "xs = y # ys" by (cases xs) auto
  from Cons.prems split xs have "d = x \<or> d \<in> set (butlast (y # ys))" by auto
  then show ?case
  proof
    assume "d = x"
    with str_split_first[of sep "c # cs" x y ys] split xs show ?thesis by auto
  next
    assume d: "d \<in> set (butlast (y # ys))"
    have "d \<in> set (butlast (str_split sep cs))"
    proof (cases "c = sep")
      case True
      with split xs d show ?thesis by auto
    next
      case False
      with split xs obtain x' where "str_split sep cs = x' # y # ys"
        by (auto split: list.splits)
      with d show ?thesis by auto
    qed
    then have "sublist (d @ [sep]) cs" by (rule Cons.IH)
    then show ?thesis by (simp add: sublist_Cons_right)
  qed
qed

lemma in_reserved_dir_artifact: "in_reserved_dir p \<Longrightarrow> is_build_artifact p"
proof -
  assume "in_reserved_dir p"
  then obtain skip where skip: "skip \<in> set skip_list"
    "butlast skip \<in> set (butlast (str_split CHR ''/'' p))"
    by (auto simp: in_reserved_dir_def list_ex_iff)
  from skip(1) have "skip = butlast skip @ ''/''" by (auto simp: skip_list_def)
  moreover from skip(2) have "sublist (butlast skip @ ''/'') p"
    by (rule str_split_dir_contains)
  ultimately have "str_contains skip p" by (simp add: str_contains_sublist)
  with skip(1) show "is_build_artifact p"
    by (auto simp: is_build_artifact_def list_ex_iff)
qed

section \<open>A table that changes no text\<close>

lemma ufc_inert:
  assumes "\<And>c. apply_replacements table c = c"
  shows "\<exists>evs. update_file_content p table w = (False, w\<lparr>events := events w @ evs\<rparr>)
           \<and> (\<forall>e \<in> set evs. \<not> is_updated e \<and> (\<forall>q. e \<noteq> OpenWrite q))"
proof (cases "read_result (files w p)")
  case (Inl e)
  then show ?thesis
    by (intro exI[of _ "[OpenRead p, Print (ErrorUpdating p e)]"]) (simp add: ufc_read_error)
next
  case (Inr c)
  with assms show ?thesis
    by (intro exI[of _ "[OpenRead p]"]) (simp add: ufc_unchanged)
qed

lemma loop_body_inert:
  assumes "\<And>c. apply_replacements table c = c"
  shows "\<exists>evs. loop_body table p s =
             s\<lparr>world_of := (world_of s)\<lparr>events := events (world_of s) @ evs\<rparr>,
               total_files := total_files s + (if candidate p then 1 else 0)\<rparr>
           \<and> (\<forall>e \<in> set evs. \<not> is_updated e \<and> (\<forall>q. e \<noteq> OpenWrite q))"
proof (cases "candidate p")
  case False
  then show ?thesis by (intro exI[of _ "[]"]) (simp add: loop_body_skip)
next
  case True
  obtain evs where evs:
    "update_file_content p table (world_of s) =
       (False, (world_of s)\<lparr>events := events (world_of s) @ evs\<rparr>)"
    "\<forall>e \<in> set evs. \<not> is_updated e \<and> (\<forall>q. e \<noteq> OpenWrite q)"
    using ufc_inert[OF assms, of p "world_of s"] by blast
  with True show ?thesis
    by (intro exI[of _ evs])
       (simp add: loop_body_candidate update_and_count_def count_file_def)
qed

lemma inner_loop_inert:
  assumes "\<And>c. apply_replacements table c = c"
  shows "\<exists>evs. events (world_of (inner_loop table ps s)) = events (world_of s) @ evs
           \<and> (\<forall>e \<in> set evs. \<not> is_updated e \<and> (\<forall>q. e \<noteq> OpenWrite q))
           \<and> files (world_of (inner_loop table ps s)) = files (world_of s)
           \<and> updated_files (inner_loop table ps s) = updated_files s"
proof (induction ps arbitrary: s)
  case Nil
  then show ?case by simp
next
  case (Cons p ps)
  obtain evs1 where evs1:
    "loop_body table p s =
       s\<lparr>world_of := (world_of s)\<lparr>events := events (world_of s) @ evs1\<rparr>,
         total_files := total_files s + (if candidate p then 1 else 0)\<rparr>"
    "\<forall>e \<in> set evs1. \<not> is_updated e \<and> (\<forall>q. e \<noteq> OpenWrite q)"
    using loop_body_inert[OF assms, of p s] by blast
  obtain evs2 where evs2:
    "events (world_of (inner_loop table ps (loop_body table p s))) =
       events (world_of (loop_body table p s)) @ evs2"
    "\<forall>e \<in> set evs2. \<not> is_updated e \<and> (\<forall>q. e \<noteq> OpenWrite q)"
    "files (world_of (inner_loop table ps (loop_body table p s))) =
       files (world_of (loop_body table p s))"
    "updated_files (inner_loop table ps (loop_body table p s)) =
       updated_files (loop_body table p s)"
    using Cons.IH[of "loop_body table p s"] by blast
  show ?case
    using evs1 evs2 by (intro exI[of _ "evs1 @ evs2"]) auto
qed

lemma run_inert:
  assumes "\<And>c. apply_replacements table c = c"
  shows "\<exists>evs. emitted w (run table patterns w) =
             Print Starting # evs @
               [Print Completed,
                Print (Summary 0 (int (length (filter candidate (discovered w patterns))))),
                Print Renamed]
           \<and> (\<forall>e \<in> set evs. \<not> is_updated e \<and> (\<forall>q. e \<noteq> OpenWrite q))
           \<and> files (run table patterns w) = files w"
proof -
  let ?s = "inner_loop table (discovered w patterns) (start w)"
  obtain evs where evs:
    "events (world_of ?s) = events (world_of (start w)) @ evs"
    "\<forall>e \<in> set evs. \<not> is_updated e \<and> (\<forall>q. e \<noteq> OpenWrite q)"
    "files (world_of ?s) = files (world_of (start w))"
    "updated_files ?s = updated_files (start w)"
    using inner_loop_inert[OF assms, of "discovered w patterns" "start w"] by blast
  have "events (run table patterns w) =
          events w @ Print Starting # evs @
            [Print Completed,
             Print (Summary 0 (int (length (filter candidate (discovered w patterns))))),
             Print Renamed]"
    using evs(1,4) by (simp add: run_flat finish_events inner_loop_total)
  then have "emitted w (run table patterns w) =
          Print Starting # evs @
            [Print Completed,
             Print (Summary 0 (int (length (filter candidate (discovered w patterns))))),
             Print Renamed]"
    by (rule emitted_append)
  moreover have "files (run table patterns w) = files w"
    using evs(3) by (simp add: run_flat finish_files)
  ultimately show ?thesis using evs(2) by (intro exI[of _ evs]) simp
qed

lemma replacements_same: "map fst replacements = map snd replacements"
  by (simp add: replacements_def)

lemma replacements_inert: "apply_replacements replacements c = c"
  by (rule apply_replacements_same[OF replacements_same])

section \<open>One path through a whole loop\<close>

text \<open>The events of an iteration on another path, or on a skipped one, are not about \<open>p\<close>.\<close>

lemma loop_body_other:
  assumes "q \<noteq> p \<or> \<not> candidate q"
  shows "\<exists>evs. events (world_of (loop_body table q s)) = events (world_of s) @ evs
           \<and> (\<forall>e \<in> set evs. event_path e \<noteq> Some p)
           \<and> files (world_of (loop_body table q s)) p = files (world_of s) p"
proof -
  obtain evs where evs:
    "events (world_of (loop_body table q s)) = events (world_of s) @ evs"
    "\<forall>e \<in> set evs. event_path e = Some q \<and> candidate q"
    using loop_body_events[of table q s] by blast
  from evs(2) assms have "\<forall>e \<in> set evs. event_path e \<noteq> Some p" by auto
  moreover have "files (world_of (loop_body table q s)) p = files (world_of s) p"
    using assms by (intro loop_body_files_other) auto
  ultimately show ?thesis using evs(1) by blast
qed

text \<open>A file that cannot be read: an error line at each visit, and nothing else.\<close>

lemma loop_body_unreadable:
  assumes "read_result (files (world_of s) p) = Inl e" and "candidate p"
  shows "events (world_of (loop_body table p s)) =
           events (world_of s) @ [OpenRead p, Print (ErrorUpdating p e)]"
    and "files (world_of (loop_body table p s)) = files (world_of s)"
    and "updated_files (loop_body table p s) = updated_files s"
    and "total_files (loop_body table p s) = total_files s + 1"
  using assms
  by (simp_all add: loop_body_world loop_body_updated loop_body_total ufc_read_error)

lemma inner_loop_unreadable:
  assumes "read_result (files (world_of s) p) = Inl e"
  shows "\<exists>evs. events (world_of (inner_loop table ps s)) = events (world_of s) @ evs
           \<and> Print (Updated p) \<notin> set evs \<and> OpenWrite p \<notin> set evs
           \<and> (p \<in> set ps \<and> candidate p \<longrightarrow> Print (ErrorUpdating p e) \<in> set evs)
           \<and> files (world_of (inner_loop table ps s)) p = files (world_of s) p"
  using assms
proof (induction ps arbitrary: s)
  case Nil
  then show ?case by simp
next
  case (Cons q ps)
  let ?s1 = "loop_body table q s"
  have kept: "read_result (files (world_of ?s1) p) = Inl e"
    using Cons.prems by (rule loop_body_read_error)
  obtain evs2 where evs2:
    "events (world_of (inner_loop table ps ?s1)) = events (world_of ?s1) @ evs2"
    "Print (Updated p) \<notin> set evs2" "OpenWrite p \<notin> set evs2"
    "p \<in> set ps \<and> candidate p \<longrightarrow> Print (ErrorUpdating p e) \<in> set evs2"
    "files (world_of (inner_loop table ps ?s1)) p = files (world_of ?s1) p"
    using Cons.IH[OF kept] by blast
  show ?case
  proof (cases "q = p \<and> candidate q")
    case True
    then have q: "q = p" and cand: "candidate p" by auto
    have "events (world_of ?s1) = events (world_of s) @ [OpenRead p, Print (ErrorUpdating p e)]"
      "files (world_of ?s1) = files (world_of s)"
      unfolding q using loop_body_unreadable[OF Cons.prems cand, of table] by simp_all
    with evs2 show ?thesis
      by (intro exI[of _ "[OpenRead p, Print (ErrorUpdating p e)] @ evs2"]) simp
  next
    case False
    then obtain evs1 where evs1:
      "events (world_of ?s1) = events (world_of s) @ evs1"
      "\<forall>e \<in> set evs1. event_path e \<noteq> Some p"
      "files (world_of ?s1) p = files (world_of s) p"
      using loop_body_other[of q p table s] by blast
    from evs1(2) have "Print (Updated p) \<notin> set evs1" "OpenWrite p \<notin> set evs1"
      by force+
    with evs1 evs2 False show ?thesis
      by (intro exI[of _ "evs1 @ evs2"]) auto
  qed
qed

text \<open>A file whose text the table leaves alone: it is read at each visit, and no more.\<close>

lemma inner_loop_settled:
  assumes "read_result (files (world_of s) p) = Inr c" and "apply_replacements table c = c"
  shows "\<exists>evs. events (world_of (inner_loop table ps s)) = events (world_of s) @ evs
           \<and> Print (Updated p) \<notin> set evs \<and> OpenWrite p \<notin> set evs
           \<and> files (world_of (inner_loop table ps s)) p = files (world_of s) p"
  using assms(1)
proof (induction ps arbitrary: s)
  case Nil
  then show ?case by simp
next
  case (Cons q ps)
  let ?s1 = "loop_body table q s"
  have "\<exists>evs1. events (world_of ?s1) = events (world_of s) @ evs1
          \<and> Print (Updated p) \<notin> set evs1 \<and> OpenWrite p \<notin> set evs1
          \<and> files (world_of ?s1) p = files (world_of s) p"
  proof (cases "q = p \<and> candidate q")
    case True
    then have q: "q = p" and cand: "candidate p" by auto
    show ?thesis
      unfolding q using Cons.prems assms(2) cand
      by (intro exI[of _ "[OpenRead p]"]) (simp add: loop_body_world ufc_unchanged)
  next
    case False
    then obtain evs1 where evs1:
      "events (world_of ?s1) = events (world_of s) @ evs1"
      "\<forall>e \<in> set evs1. event_path e \<noteq> Some p"
      "files (world_of ?s1) p = files (world_of s) p"
      using loop_body_other[of q p table s] by blast
    from evs1(2) have "Print (Updated p) \<notin> set evs1" "OpenWrite p \<notin> set evs1"
      by force+
    with evs1 show ?thesis by blast
  qed
  then obtain evs1 where evs1:
    "events (world_of ?s1) = events (world_of s) @ evs1"
    "Print (Updated p) \<notin> set evs1" "OpenWrite p \<notin> set evs1"
    "files (world_of ?s1) p = files (world_of s) p"
    by blast
  from evs1(4) Cons.prems have "read_result (files (world_of ?s1) p) = Inr c" by simp
  then obtain evs2 where evs2:
    "events (world_of (inner_loop table ps ?s1)) = events (world_of ?s1) @ evs2"
    "Print (Updated p) \<notin> set evs2" "OpenWrite p \<notin> set evs2"
    "files (world_of (inner_loop table ps ?s1)) p = files (world_of ?s1) p"
    using Cons.IH by blast
  with evs1 show ?case
    by (intro exI[of _ "evs1 @ evs2"]) auto
qed

text \<open>
  A readable, writable candidate whose text the table changes into a text that, read
  back, it leaves alone: the first visit writes it, and that is the only
  \<^verbatim>\<open>Updated\<close> line about it.
\<close>

lemma inner_loop_written_once:
  assumes "p \<in> set ps" and "candidate p"
    and "read_result (files (world_of s) p) = Inr c"
    and "write_error (files (world_of s) p) = None"
    and "apply_replacements table c \<noteq> c"
    and "apply_replacements table (universal_newlines (apply_replacements table c)) =
           universal_newlines (apply_replacements table c)"
  shows "\<exists>evs. events (world_of (inner_loop table ps s)) = events (world_of s) @ evs
           \<and> count_list evs (Print (Updated p)) = 1
           \<and> read_result (files (world_of (inner_loop table ps s)) p) =
               Inr (universal_newlines (apply_replacements table c))"
proof -
  from assms(1) obtain ps1 ps2 where ps: "ps = ps1 @ p # ps2" "p \<notin> set ps1"
    by (auto dest: split_list_first)
  let ?s1 = "inner_loop table ps1 s"
  let ?s2 = "loop_body table p ?s1"
  obtain evs1 where evs1:
    "events (world_of ?s1) = events (world_of s) @ evs1"
    "\<forall>e \<in> set evs1. \<forall>q. event_path e = Some q \<longrightarrow> q \<in> set ps1 \<and> candidate q"
    using inner_loop_events[of table ps1 s] by blast
  have "Print (Updated p) \<notin> set evs1"
    using evs1(2) ps(2) by force
  then have c1: "count_list evs1 (Print (Updated p)) = 0" by simp
  have f1: "files (world_of ?s1) p = files (world_of s) p"
    using ps(2) by (simp add: inner_loop_files_other)
  have ufc: "update_file_content p table (world_of ?s1) =
      (True, (world_of ?s1)\<lparr>files := (files (world_of ?s1))
                (p := (files (world_of ?s1) p)\<lparr>decoded := Inr (apply_replacements table c)\<rparr>),
              events := events (world_of ?s1) @ [OpenRead p, OpenWrite p, Print (Updated p)]\<rparr>)"
    using assms(3,4,5) f1 by (intro ufc_written) simp_all
  have e2: "events (world_of ?s2) =
              events (world_of ?s1) @ [OpenRead p, OpenWrite p, Print (Updated p)]"
    and f2: "read_result (files (world_of ?s2) p) =
               Inr (universal_newlines (apply_replacements table c))"
    using assms(2) ufc by (simp_all add: loop_body_world read_result_written)
  obtain evs3 where evs3:
    "events (world_of (inner_loop table ps2 ?s2)) = events (world_of ?s2) @ evs3"
    "Print (Updated p) \<notin> set evs3"
    "files (world_of (inner_loop table ps2 ?s2)) p = files (world_of ?s2) p"
    using inner_loop_settled[OF f2 assms(6), of ps2] by blast
  have "inner_loop table ps s = inner_loop table ps2 ?s2"
    by (simp add: ps(1) inner_loop_append)
  with evs1(1) c1 e2 f2 evs3 show ?thesis
    by (intro exI[of _ "evs1 @ [OpenRead p, OpenWrite p, Print (Updated p)] @ evs3"]) simp
qed

section \<open>The example trees\<close>

lemma apply_replacements_append:
  "apply_replacements (t1 @ t2) content = apply_replacements t2 (apply_replacements t1 content)"
  by (induction t1 content rule: apply_replacements.induct) auto

lemma candidate_notes: "candidate ''notes.md''"
  by (simp add: candidate_def is_hidden_def path_parts_def splitroot_def startswith_def
      is_build_artifact_def skip_list_def)

lemma candidate_locked: "candidate ''locked.md''"
  by (simp add: candidate_def is_hidden_def path_parts_def splitroot_def startswith_def
      is_build_artifact_def skip_list_def)

lemma example_discovered:
  "discovered example_tree file_patterns =
     [''notes.md'', ''docs/readme.md'', ''target/doc/index.md'', ''mytarget/a.md'', ''locked.md'']"
  by (simp add: discovered_def example_tree_def md_tree_def file_patterns_def)

lemma juxta_discovered: "discovered juxta_tree file_patterns = [''notes.md'']"
  by (simp add: discovered_def juxta_tree_def md_tree_def file_patterns_def)

lemma rename_table_free: "no_key_reintroduced rename_table"
  by (simp add: no_key_reintroduced_def rename_table_def overlap_free_def suffix_to_prefix)

lemma rename_table_no_cr: "no_carriage_return rename_table"
  by (simp add: no_carriage_return_def rename_table_def)

lemma juxta_run:
  "read_result (files (run juxta_table file_patterns juxta_tree) ''notes.md'') = Inr ''ab''"
proof -
  have r: "read_result (files (world_of (start juxta_tree)) ''notes.md'') = Inr ''aabb''"
    and w: "write_error (files (world_of (start juxta_tree)) ''notes.md'') = None"
    by (simp_all add: juxta_tree_def md_tree_def text_file_def read_result_def)
  have a: "apply_replacements juxta_table ''aabb'' = ''ab''"
    by (simp add: juxta_table_def)
  have "run juxta_table file_patterns juxta_tree =
          finish (loop_body juxta_table ''notes.md'' (start juxta_tree))"
    by (simp add: run_flat juxta_discovered)
  then show ?thesis
    using ufc_written[OF r _ w, of juxta_table] a
    by (simp add: finish_files loop_body_world candidate_notes read_result_written)
qed

section \<open>The specification's substitution and \<^verbatim>\<open>str.replace\<close>\<close>

lemma find_map_Suc:
  "List.find P (map Suc xs) = map_option Suc (List.find (\<lambda>i. P (Suc i)) xs)"
  by (induction xs) auto

lemma first_occurrence_Nil: "old \<noteq> [] \<Longrightarrow> first_occurrence old [] = None"
  by (simp add: first_occurrence_def)

lemma first_occurrence_Cons:
  "first_occurrence old (c # cs) =
     (if prefix old (c # cs) then Some 0 else map_option Suc (first_occurrence old cs))"
proof -
  have "[0..<Suc (Suc (length cs))] = 0 # map Suc [0..<Suc (length cs)]"
    by (simp only: map_Suc_upt upt_conv_Cons[of 0 "Suc (Suc (length cs))"] zero_less_Suc)
  then show ?thesis
    unfolding first_occurrence_def length_Cons
    by (simp add: find_map_Suc del: upt_Suc)
qed

text \<open>The index found is the least one at which the old string stands.\<close>

lemma first_occurrence_least:
  "first_occurrence old s = Some i \<Longrightarrow>
     prefix old (drop i s) \<and> i \<le> length s \<and> (\<forall>j < i. \<not> prefix old (drop j s))"
proof -
  assume "first_occurrence old s = Some i"
  then obtain k where k: "k < length [0..<Suc (length s)]"
    "prefix old (drop ([0..<Suc (length s)] ! k) s)" "i = [0..<Suc (length s)] ! k"
    "\<forall>j < k. \<not> prefix old (drop ([0..<Suc (length s)] ! j) s)"
    unfolding first_occurrence_def find_Some_iff by blast
  from k(1) have bound: "k < Suc (length s)" by (simp del: upt_Suc)
  then have at: "[0..<Suc (length s)] ! j = j" if "j \<le> k" for j
    using that nth_upt[of 0 j "Suc (length s)"] by simp
  from k(3) at[of k] have "i = k" by simp
  with k(2,4) at bound show ?thesis by auto
qed

lemma first_occurrence_None: "first_occurrence old s = None \<longleftrightarrow> \<not> sublist old s"
proof -
  have "sublist old s \<longleftrightarrow> (\<exists>i \<le> length s. prefix old (drop i s))"
  proof
    assume "sublist old s"
    then obtain ps ss where "s = ps @ old @ ss" by (auto simp: sublist_def)
    then have "length ps \<le> length s" "prefix old (drop (length ps) s)" by simp_all
    then show "\<exists>i \<le> length s. prefix old (drop i s)" by blast
  next
    assume "\<exists>i \<le> length s. prefix old (drop i s)"
    then obtain i where "prefix old (drop i s)" by blast
    then have "sublist old (drop i s)" by (rule prefix_imp_sublist)
    moreover have "sublist (drop i s) s" by (rule sublist_drop)
    ultimately show "sublist old s" by (rule sublist_order.order_trans)
  qed
  moreover have "first_occurrence old s = None \<longleftrightarrow> \<not> (\<exists>i \<le> length s. prefix old (drop i s))"
    unfolding first_occurrence_def find_None_iff
    by (simp del: upt_Suc add: less_Suc_eq_le)
  ultimately show ?thesis by simp
qed

lemma literal_subst_Nil: "literal_subst old new [] = []"
  by (cases "old = []"; subst literal_subst.simps) (simp_all add: first_occurrence_Nil)

lemma literal_subst_Cons:
  assumes "old \<noteq> []"
  shows "literal_subst old new (c # cs) =
     (if prefix old (c # cs) then new @ literal_subst old new (drop (length old) (c # cs))
      else c # literal_subst old new cs)"
proof (cases "prefix old (c # cs)")
  case True
  then show ?thesis
    using assms by (subst literal_subst.simps) (simp add: first_occurrence_Cons)
next
  case False
  show ?thesis
  proof (cases "first_occurrence old cs")
    case None
    with False assms show ?thesis
      by (subst literal_subst.simps, subst (2) literal_subst.simps)
         (simp add: first_occurrence_Cons)
  next
    case (Some i)
    with False assms show ?thesis
      by (subst literal_subst.simps, subst (2) literal_subst.simps)
         (simp add: first_occurrence_Cons)
  qed
qed

lemma literal_subst_str_replace:
  "old \<noteq> [] \<Longrightarrow> literal_subst old new s = str_replace old new s"
proof (induction old new s rule: str_replace.induct)
  case (1 old new)
  then show ?case by (simp add: literal_subst_Nil)
next
  case (2 old new c cs)
  then show ?case by (simp add: literal_subst_Cons)
qed

lemma spec_applyReplacements_eq:
  "\<forall>(old, new) \<in> set table. old \<noteq> [] \<Longrightarrow>
     spec_applyReplacements table content = apply_replacements table content"
  unfolding spec_applyReplacements_def
  by (induction table content rule: apply_replacements.induct)
     (auto simp: literal_subst_str_replace)

section \<open>Running twice\<close>

text \<open>
  When the table leaves alone the text that is read back after it has been applied and
  written, a second run finds nothing to write. The built-in table is such a table, and
  so is every table whose keys cannot touch its new strings and whose new strings hold
  no carriage return.
\<close>

lemma ufc_fst: "fst (update_file_content p table w) = would_write table w p"
  by (cases rule: ufc_cases[where w=w and p=p and table=table])
     (simp_all add: ufc_read_error ufc_unchanged ufc_write_error ufc_written would_write_def)

lemma would_write_files: "files w = files w' \<Longrightarrow> would_write table w q = would_write table w' q"
  by (simp add: would_write_def cong: sum.case_cong)

lemma ufc_settles:
  assumes "\<And>c. CHR 0x0D \<notin> set c \<Longrightarrow>
      apply_replacements table (universal_newlines (apply_replacements table c)) =
        universal_newlines (apply_replacements table c)"
  shows "\<not> would_write table (snd (update_file_content p table w)) p"
proof (cases rule: ufc_cases[where w=w and p=p and table=table])
  case (written c)
  from written(1) have "CHR 0x0D \<notin> set c" by (rule read_result_no_CR)
  then have "apply_replacements table (universal_newlines (apply_replacements table c)) =
               universal_newlines (apply_replacements table c)"
    by (rule assms)
  with written show ?thesis
    by (simp add: ufc_written would_write_def read_result_written)
qed (simp_all add: ufc_read_error ufc_unchanged ufc_write_error would_write_def)

lemma loop_body_keeps_settled:
  assumes "\<And>c. CHR 0x0D \<notin> set c \<Longrightarrow>
      apply_replacements table (universal_newlines (apply_replacements table c)) =
        universal_newlines (apply_replacements table c)"
    and "\<not> would_write table (world_of s) q"
  shows "\<not> would_write table (world_of (loop_body table p s)) q"
proof (cases "p = q \<and> candidate p")
  case True
  then have "p = q" "candidate q" by auto
  then show ?thesis using ufc_settles[OF assms(1), of q "world_of s"]
    by (simp add: loop_body_world)
next
  case False
  then have "files (world_of (loop_body table p s)) q = files (world_of s) q"
    by (intro loop_body_files_other) auto
  with assms(2) show ?thesis by (simp add: would_write_def cong: sum.case_cong)
qed

lemma inner_loop_keeps_settled:
  assumes "\<And>c. CHR 0x0D \<notin> set c \<Longrightarrow>
      apply_replacements table (universal_newlines (apply_replacements table c)) =
        universal_newlines (apply_replacements table c)"
  shows "\<not> would_write table (world_of s) q \<Longrightarrow>
           \<not> would_write table (world_of (inner_loop table ps s)) q"
  by (induction ps arbitrary: s) (simp_all add: loop_body_keeps_settled[OF assms])

lemma inner_loop_settles:
  assumes "\<And>c. CHR 0x0D \<notin> set c \<Longrightarrow>
      apply_replacements table (universal_newlines (apply_replacements table c)) =
        universal_newlines (apply_replacements table c)"
  shows "q \<in> set ps \<Longrightarrow> candidate q \<Longrightarrow>
           \<not> would_write table (world_of (inner_loop table ps s)) q"
proof (induction ps arbitrary: s)
  case Nil
  then show ?case by simp
next
  case (Cons p ps)
  show ?case
  proof (cases "p = q")
    case True
    have "\<not> would_write table (world_of (loop_body table q s)) q"
      using ufc_settles[OF assms, of q "world_of s"] Cons.prems(2)
      by (simp add: loop_body_world)
    then show ?thesis
      unfolding True[symmetric] by (simp add: inner_loop_keeps_settled[OF assms])
  next
    case False
    with Cons show ?thesis by simp
  qed
qed

lemma inner_loop_nothing_to_write:
  "\<forall>q \<in> set ps. candidate q \<longrightarrow> \<not> would_write table (world_of s) q \<Longrightarrow>
     files (world_of (inner_loop table ps s)) = files (world_of s) \<and>
     updated_files (inner_loop table ps s) = updated_files s"
proof (induction ps arbitrary: s)
  case Nil
  then show ?case by simp
next
  case (Cons p ps)
  have step: "files (world_of (loop_body table p s)) = files (world_of s) \<and>
              updated_files (loop_body table p s) = updated_files s"
  proof (cases "candidate p")
    case True
    with Cons.prems have "\<not> fst (update_file_content p table (world_of s))"
      by (simp add: ufc_fst)
    with True show ?thesis
      by (simp add: loop_body_world loop_body_updated ufc_false_files)
  next
    case False
    then show ?thesis by (simp add: loop_body_skip)
  qed
  then have "\<forall>q \<in> set ps. candidate q \<longrightarrow> \<not> would_write table (world_of (loop_body table p s)) q"
    using Cons.prems would_write_files[of "world_of (loop_body table p s)" "world_of s" table]
    by simp
  from Cons.IH[OF this] step show ?case by simp
qed

lemma run_glob: "glob_recursive (run table patterns w) = glob_recursive w"
  by (simp add: run_flat finish_glob inner_loop_glob)

lemma run_twice:
  assumes "\<And>c. CHR 0x0D \<notin> set c \<Longrightarrow>
      apply_replacements table (universal_newlines (apply_replacements table c)) =
        universal_newlines (apply_replacements table c)"
  shows "files (run table patterns (run table patterns w)) = files (run table patterns w) \<and>
         updated_files (outer_loop table patterns (start (run table patterns w))) = 0"
proof -
  let ?ps = "discovered w patterns"
  let ?s1 = "inner_loop table ?ps (start w)"
  let ?w1 = "run table patterns w"
  have ps: "discovered ?w1 patterns = ?ps"
    by (simp add: discovered_def run_glob)
  have f1: "files (world_of (start ?w1)) = files (world_of ?s1)"
    by (simp add: run_flat finish_files)
  have "\<forall>q \<in> set ?ps. candidate q \<longrightarrow> \<not> would_write table (world_of ?s1) q"
    using inner_loop_settles[OF assms] by blast
  then have "\<forall>q \<in> set ?ps. candidate q \<longrightarrow> \<not> would_write table (world_of (start ?w1)) q"
    using would_write_files[OF f1] by simp
  from inner_loop_nothing_to_write[OF this]
  have "files (world_of (inner_loop table ?ps (start ?w1))) = files (world_of (start ?w1))"
    and "updated_files (inner_loop table ?ps (start ?w1)) = updated_files (start ?w1)"
    by simp_all
  then show ?thesis
    by (simp add: run_flat[of table patterns ?w1] ps finish_files outer_loop_flat discovered_def
        run_glob)
qed

lemma run_twice_no_key_reintroduced:
  assumes "no_key_reintroduced table" and "no_carriage_return table"
  shows "files (run table patterns (run table patterns w)) = files (run table patterns w)"
proof -
  have "apply_replacements table (universal_newlines (apply_replacements table c)) =
          universal_newlines (apply_replacements table c)"
    if "CHR 0x0D \<notin> set c" for c
    using that assms by (simp add: apply_replacements_read_back apply_replacements_settled)
  from run_twice[of table, OF this] show ?thesis by blast
qed

text \<open>
  A carriage return in a new string breaks this: \<^verbatim>\<open>x\<close> is written as a carriage
  return, read back as a line feed, and the second run replaces the line feed.
\<close>

lemma cr_table_free: "no_key_reintroduced cr_table"
  by (simp add: no_key_reintroduced_def cr_table_def overlap_free_def suffix_to_prefix)

lemma cr_discovered: "discovered cr_tree file_patterns = [''notes.md'']"
  by (simp add: discovered_def cr_tree_def md_tree_def file_patterns_def)

lemma cr_run:
  "decoded (files (run cr_table file_patterns cr_tree) ''notes.md'') = Inr [CHR 0x0D] \<and>
   read_result (files (run cr_table file_patterns cr_tree) ''notes.md'') = Inr [CHR 0x0A] \<and>
   would_write cr_table (run cr_table file_patterns cr_tree) ''notes.md''"
proof -
  have r: "read_result (files (world_of (start cr_tree)) ''notes.md'') = Inr ''x''"
    and w: "write_error (files (world_of (start cr_tree)) ''notes.md'') = None"
    by (simp_all add: cr_tree_def md_tree_def text_file_def read_result_def)
  have a: "apply_replacements cr_table ''x'' = [CHR 0x0D]"
    and b: "apply_replacements cr_table [CHR 0x0A] = ''y''"
    by (simp_all add: cr_table_def)
  have "run cr_table file_patterns cr_tree =
          finish (loop_body cr_table ''notes.md'' (start cr_tree))"
    by (simp add: run_flat cr_discovered)
  then show ?thesis
    using ufc_written[OF r _ w, of cr_table] a b w
    by (simp add: finish_files loop_body_world candidate_notes read_result_def would_write_def)
qed

section \<open>The claims\<close>

text \<open>
  C1, as stated, fails. In the table \<^verbatim>\<open>{"ab": ""}\<close> no new string contains a key, and
  the readable, writable candidate file \<^verbatim>\<open>notes.md\<close> with the text \<^verbatim>\<open>aabb\<close> contains
  the key; \<^verbatim>\<open>str.replace\<close> makes one pass, and what it leaves around the replaced
  occurrence joins into the key again: after the run the file holds \<^verbatim>\<open>ab\<close>.
\<close>

theorem key_reappears_counterexample:
  "str_contains ''ab'' ''aabb'' \<and> \<not> str_contains ''ab'' [] \<and>
   juxta_table = [(''ab'', [])] \<and>
   discovered juxta_tree file_patterns = [''notes.md''] \<and> candidate ''notes.md'' \<and>
   read_result (files juxta_tree ''notes.md'') = Inr ''aabb'' \<and>
   write_error (files juxta_tree ''notes.md'') = None \<and>
   read_result (files (run juxta_table file_patterns juxta_tree) ''notes.md'') = Inr ''ab'' \<and>
   str_contains ''ab'' ''ab''"
proof -
  have key: "str_contains ''ab'' ''aabb''" "\<not> str_contains ''ab'' []" "str_contains ''ab'' ''ab''"
    by simp_all
  have entry: "read_result (files juxta_tree ''notes.md'') = Inr ''aabb''"
    "write_error (files juxta_tree ''notes.md'') = None"
    by (simp_all add: juxta_tree_def md_tree_def text_file_def read_result_def)
  show ?thesis
    by (intro conjI key juxta_table_def juxta_discovered candidate_notes entry juxta_run)
qed

text \<open>
  C1, amended. The caveat has to keep every key away from every new string: no key
  occurs in a new string, no new string occurs in a key (so no new string is empty), and
  no non-empty beginning of one is an end of the other. And no new string holds a
  carriage return, which the next read of the file would give back as a line feed.
  Under this caveat, for every discovered candidate file that is readable and writable
  and whose text contains a key of the table, after the run the text read from the file
  is the result of applying the table, no key of the table occurs in it, exactly one
  \<^verbatim>\<open>Updated\<close> line is about the file, and the counter of updated files in the
  summary is the number of \<^verbatim>\<open>Updated\<close> lines.
\<close>

theorem keys_removed_and_counted:
  assumes "no_key_reintroduced table"
    and "p \<in> set (discovered w patterns)" and "candidate p"
    and "read_result (files w p) = Inr c" and "write_error (files w p) = None"
    and "(k, n) \<in> set table" and "str_contains k c"
    and "no_carriage_return table"
  shows "read_result (files (run table patterns w) p) = Inr (apply_replacements table c) \<and>
         (\<forall>(k', n') \<in> set table. \<not> str_contains k' (apply_replacements table c)) \<and>
         count_list (emitted w (run table patterns w)) (Print (Updated p)) = 1 \<and>
         (\<exists>evs t. emitted w (run table patterns w) =
            Print Starting # evs @
              [Print Completed, Print (Summary (int (length (filter is_updated evs))) t),
               Print Renamed])"
proof -
  let ?ps = "discovered w patterns"
  let ?s = "inner_loop table ?ps (start w)"
  let ?c = "apply_replacements table c"
  have gone: "\<forall>(k', n') \<in> set table. \<not> str_contains k' ?c"
    using apply_replacements_removes[OF assms(1)] by auto
  with assms(6,7) have changed: "?c \<noteq> c" by force
  have "CHR 0x0D \<notin> set c"
    using assms(4) by (rule read_result_no_CR)
  then have reread: "universal_newlines ?c = ?c"
    using assms(8) by (rule apply_replacements_read_back)
  have settled: "apply_replacements table (universal_newlines ?c) = universal_newlines ?c"
    unfolding reread by (rule apply_replacements_settled[OF assms(1)])
  have r0: "read_result (files (world_of (start w)) p) = Inr c"
    and w0: "write_error (files (world_of (start w)) p) = None"
    using assms(4,5) by simp_all
  obtain evs' where evs':
    "events (world_of ?s) = events (world_of (start w)) @ evs'"
    "count_list evs' (Print (Updated p)) = 1"
    "read_result (files (world_of ?s) p) = Inr ?c"
    using inner_loop_written_once[OF assms(2,3) r0 w0 changed settled] unfolding reread by blast
  obtain evs where evs:
    "emitted w (run table patterns w) =
       Print Starting # evs @
         [Print Completed,
          Print (Summary (int (length (filter is_updated evs)))
                         (int (length (filter candidate ?ps)))),
          Print Renamed]"
    "events (world_of ?s) = events w @ Print Starting # evs"
    using run_events[of w table patterns] by blast
  from evs'(1) evs(2) have same: "evs' = evs" by simp
  have content: "read_result (files (run table patterns w) p) = Inr ?c"
    using evs'(3) by (simp add: run_flat finish_files)
  have once: "count_list (emitted w (run table patterns w)) (Print (Updated p)) = 1"
    using evs'(2) unfolding same evs(1) by simp
  have summary: "\<exists>evs t. emitted w (run table patterns w) =
            Print Starting # evs @
              [Print Completed, Print (Summary (int (length (filter is_updated evs))) t),
               Print Renamed]"
    using evs(1) by blast
  show ?thesis
    by (intro conjI content gone once summary)
qed

theorem keys_removed_and_counted_witness:
  "no_key_reintroduced rename_table \<and> no_carriage_return rename_table \<and>
   ''notes.md'' \<in> set (discovered example_tree file_patterns) \<and> candidate ''notes.md'' \<and>
   read_result (files example_tree ''notes.md'') = Inr ''See a3mailer-server for details'' \<and>
   write_error (files example_tree ''notes.md'') = None \<and>
   (''a3mailer-server'', ''mailserver-core'') \<in> set rename_table \<and>
   str_contains ''a3mailer-server'' ''See a3mailer-server for details'' \<and>
   read_result (files (run rename_table file_patterns example_tree) ''notes.md'') =
     Inr ''See mailserver-core for details'' \<and>
   \<not> str_contains ''a3mailer-server'' ''See mailserver-core for details'' \<and>
   count_list (emitted example_tree (run rename_table file_patterns example_tree))
     (Print (Updated ''notes.md'')) = 1"
proof -
  have d: "''notes.md'' \<in> set (discovered example_tree file_patterns)"
    by (simp add: example_discovered)
  have r: "read_result (files example_tree ''notes.md'') = Inr ''See a3mailer-server for details''"
    and w: "write_error (files example_tree ''notes.md'') = None"
    by (simp_all add: example_tree_def md_tree_def text_file_def read_result_def)
  have m: "(''a3mailer-server'', ''mailserver-core'') \<in> set rename_table"
    by (simp add: rename_table_def)
  have k: "str_contains ''a3mailer-server'' ''See a3mailer-server for details''"
    by simp
  have a: "apply_replacements rename_table ''See a3mailer-server for details'' =
             ''See mailserver-core for details''"
    by (simp add: rename_table_def)
  have g: "\<not> str_contains ''a3mailer-server'' ''See mailserver-core for details''"
    by simp
  from keys_removed_and_counted[OF rename_table_free d candidate_notes r w m k rename_table_no_cr]
  have "read_result (files (run rename_table file_patterns example_tree) ''notes.md'') =
          Inr ''See mailserver-core for details''"
    and "count_list (emitted example_tree (run rename_table file_patterns example_tree))
           (Print (Updated ''notes.md'')) = 1"
    unfolding a by blast+
  with rename_table_free rename_table_no_cr d candidate_notes r w m k g show ?thesis by blast
qed

text \<open>
  C2. Every pair of the built-in table has its old string equal to its new string. So,
  for every file that Python can read as text, applying the table gives the text back,
  \<^verbatim>\<open>update_file_content\<close> returns \<^verbatim>\<open>False\<close> having only opened the file for reading,
  and a run of \<^verbatim>\<open>main\<close> opens no file for writing and leaves every file as it was.
\<close>

theorem builtin_table_identity:
  "map fst replacements = map snd replacements \<and>
   (read_result (files w p) = Inr c \<longrightarrow>
      apply_replacements replacements c = c \<and>
      update_file_content p replacements w = (False, emit (OpenRead p) w)) \<and>
   files (main w) = files w \<and>
   (\<forall>q. OpenWrite q \<notin> set (emitted w (main w)))"
proof -
  obtain evs where evs:
    "emitted w (main w) =
       Print Starting # evs @
         [Print Completed,
          Print (Summary 0 (int (length (filter candidate (discovered w file_patterns))))),
          Print Renamed]"
    "\<forall>e \<in> set evs. \<not> is_updated e \<and> (\<forall>q. e \<noteq> OpenWrite q)"
    "files (main w) = files w"
    unfolding main_def using run_inert[OF replacements_inert, of w file_patterns] by blast
  have "\<forall>q. OpenWrite q \<notin> set (emitted w (main w))"
    using evs(1,2) by auto
  with evs(3) show ?thesis
    by (simp add: replacements_same replacements_inert ufc_unchanged emit_def)
qed

theorem builtin_table_identity_witness:
  "read_result (files example_tree ''docs/readme.md'') = Inr ''A3Mailer DAV Server'' \<and>
   apply_replacements replacements ''A3Mailer DAV Server'' = ''A3Mailer DAV Server'' \<and>
   update_file_content ''docs/readme.md'' replacements example_tree =
     (False, emit (OpenRead ''docs/readme.md'') example_tree)"
proof -
  have r: "read_result (files example_tree ''docs/readme.md'') = Inr ''A3Mailer DAV Server''"
    by (simp add: example_tree_def md_tree_def text_file_def read_result_def)
  with builtin_table_identity[of example_tree "''docs/readme.md''" "''A3Mailer DAV Server''"]
  show ?thesis by blast
qed

text \<open>
  C3. When applying the table to the text of a readable file gives the same text, and
  in particular when no key of the table occurs in the text, \<^verbatim>\<open>update_file_content\<close>
  opens the file for reading only, leaves the files as they are and returns \<^verbatim>\<open>False\<close>,
  and the iteration of the loop does not count the file as updated.
\<close>

theorem unchanged_content_no_write:
  assumes "read_result (files (world_of s) p) = Inr c"
    and "(\<forall>(old, new) \<in> set table. \<not> str_contains old c) \<or> apply_replacements table c = c"
  shows "apply_replacements table c = c \<and>
         update_file_content p table (world_of s) = (False, emit (OpenRead p) (world_of s)) \<and>
         files (snd (update_file_content p table (world_of s))) = files (world_of s) \<and>
         emitted (world_of s) (snd (update_file_content p table (world_of s))) = [OpenRead p] \<and>
         files (world_of (loop_body table p s)) = files (world_of s) \<and>
         updated_files (loop_body table p s) = updated_files s"
proof -
  from assms(2) have same: "apply_replacements table c = c"
    by (auto simp: apply_replacements_absent)
  have ufc: "update_file_content p table (world_of s) =
               (False, (world_of s)\<lparr>events := events (world_of s) @ [OpenRead p]\<rparr>)"
    using assms(1) same by (rule ufc_unchanged)
  then show ?thesis
    using same by (simp add: emit_def emitted_def loop_body_world loop_body_updated)
qed

theorem unchanged_content_no_write_witness:
  "apply_replacements rename_table ''A3Mailer DAV Server'' = ''A3Mailer DAV Server'' \<and>
   update_file_content ''docs/readme.md'' rename_table example_tree =
     (False, emit (OpenRead ''docs/readme.md'') example_tree) \<and>
   updated_files (loop_body rename_table ''docs/readme.md'' (start example_tree)) = 0"
proof -
  let ?s = "\<lparr>world_of = example_tree, updated_files = 0, total_files = 0\<rparr>"
  have r: "read_result (files (world_of ?s) ''docs/readme.md'') = Inr ''A3Mailer DAV Server''"
    by (simp add: example_tree_def md_tree_def text_file_def read_result_def)
  have r': "read_result (files (world_of (start example_tree)) ''docs/readme.md'') =
              Inr ''A3Mailer DAV Server''"
    by (simp add: example_tree_def md_tree_def text_file_def read_result_def)
  have k: "(\<forall>(old, new) \<in> set rename_table. \<not> str_contains old ''A3Mailer DAV Server'') \<or>
           apply_replacements rename_table ''A3Mailer DAV Server'' = ''A3Mailer DAV Server''"
    by (simp add: rename_table_def)
  from unchanged_content_no_write[OF r k] unchanged_content_no_write[OF r' k]
  show ?thesis by simp
qed

text \<open>
  C4. The new content is the left fold of \<^verbatim>\<open>str.replace\<close> over the table in its
  order, from the full text of the file: each entry works on the result of the entries
  before it. For a table without an empty key this is the specification's fold of
  literal substitutions without overlaps (replace at the leftmost occurrence, go on
  after it), and it is the text that \<^verbatim>\<open>update_file_content\<close> writes into the file
  when it writes; the next read gives it back with its line ends translated.
\<close>

theorem apply_replacements_left_fold:
  assumes "\<forall>(old, new) \<in> set table. old \<noteq> []"
  shows "apply_replacements table content =
           foldl (\<lambda>acc (old, new). str_replace old new acc) content table \<and>
         apply_replacements table content = spec_applyReplacements table content \<and>
         apply_replacements (table @ [(old, new)]) content =
           str_replace old new (apply_replacements table content) \<and>
         (read_result (files w p) = Inr content \<longrightarrow>
            fst (update_file_content p table w) =
              (spec_applyReplacements table content \<noteq> content \<and> write_error (files w p) = None) \<and>
            (fst (update_file_content p table w) \<longrightarrow>
               decoded (files (snd (update_file_content p table w)) p) =
                 Inr (spec_applyReplacements table content) \<and>
               read_result (files (snd (update_file_content p table w)) p) =
                 Inr (universal_newlines (spec_applyReplacements table content))))"
proof -
  have spec: "spec_applyReplacements table content = apply_replacements table content"
    using assms by (rule spec_applyReplacements_eq)
  have last: "apply_replacements (table @ [(old, new)]) content =
                str_replace old new (apply_replacements table content)"
    by (simp add: apply_replacements_append)
  have ufc: "fst (update_file_content p table w) =
               (apply_replacements table content \<noteq> content \<and> write_error (files w p) = None) \<and>
             (fst (update_file_content p table w) \<longrightarrow>
               decoded (files (snd (update_file_content p table w)) p) =
                 Inr (apply_replacements table content) \<and>
               read_result (files (snd (update_file_content p table w)) p) =
                 Inr (universal_newlines (apply_replacements table content)))"
    if r: "read_result (files w p) = Inr content"
  proof (cases "apply_replacements table content = content")
    case True
    with r show ?thesis by (simp add: ufc_unchanged)
  next
    case False
    show ?thesis
    proof (cases "write_error (files w p)")
      case None
      with r False show ?thesis by (simp add: ufc_written read_result_written)
    next
      case (Some e)
      with r False show ?thesis by (simp add: ufc_write_error)
    qed
  qed
  show ?thesis
    unfolding spec using ufc last by (simp add: apply_replacements_foldl)
qed

theorem apply_replacements_left_fold_witness:
  "list_all (\<lambda>(old, new). old \<noteq> []) rename_table \<and>
   read_result (files example_tree ''notes.md'') = Inr ''See a3mailer-server for details'' \<and>
   spec_applyReplacements rename_table ''See a3mailer-server for details'' =
     ''See mailserver-core for details'' \<and>
   fst (update_file_content ''notes.md'' rename_table example_tree) \<and>
   read_result (files (snd (update_file_content ''notes.md'' rename_table example_tree))
      ''notes.md'') = Inr ''See mailserver-core for details''"
proof -
  have k: "\<forall>(old, new) \<in> set rename_table. old \<noteq> []"
    by (simp add: rename_table_def)
  have r: "read_result (files example_tree ''notes.md'') = Inr ''See a3mailer-server for details''"
    and w: "write_error (files example_tree ''notes.md'') = None"
    by (simp_all add: example_tree_def md_tree_def text_file_def read_result_def)
  have a: "apply_replacements rename_table ''See a3mailer-server for details'' =
             ''See mailserver-core for details''"
    by (simp add: rename_table_def)
  note th = apply_replacements_left_fold[OF k,
      where content="''See a3mailer-server for details''" and w=example_tree and p="''notes.md''"]
  from th have "apply_replacements rename_table ''See a3mailer-server for details'' =
                  spec_applyReplacements rename_table ''See a3mailer-server for details''"
    by blast
  with a have s: "spec_applyReplacements rename_table ''See a3mailer-server for details'' =
                    ''See mailserver-core for details''"
    by simp
  from th r have "fst (update_file_content ''notes.md'' rename_table example_tree) =
      (spec_applyReplacements rename_table ''See a3mailer-server for details'' \<noteq>
         ''See a3mailer-server for details'' \<and> write_error (files example_tree ''notes.md'') = None)"
    by blast
  then have u: "fst (update_file_content ''notes.md'' rename_table example_tree)"
    unfolding s w by simp
  from th r u have "read_result (files (snd (update_file_content ''notes.md'' rename_table
      example_tree)) ''notes.md'') =
        Inr (universal_newlines
          (spec_applyReplacements rename_table ''See a3mailer-server for details''))"
    by blast
  then have v: "read_result (files (snd (update_file_content ''notes.md'' rename_table
      example_tree)) ''notes.md'') = Inr ''See mailserver-core for details''"
    unfolding s by simp
  have k': "list_all (\<lambda>(old, new). old \<noteq> []) rename_table"
    by (simp add: rename_table_def)
  show ?thesis
    by (intro conjI k' r s u v)
qed

text \<open>
  C5. A candidate file that cannot be read (it cannot be opened, or its bytes do not
  decode): \<^verbatim>\<open>update_file_content\<close> catches the exception, prints the error line with the
  path and the exception and returns \<^verbatim>\<open>False\<close>; the iteration counts the file in the
  total and not in the updated files, and the loop goes on with the rest. In the run the
  error line is printed, no \<^verbatim>\<open>Updated\<close> line is about the file, the file is never
  opened for writing and stays as it was, every candidate among the discovered paths is
  opened for reading, and the run ends with its summary, whose total counts the file.
\<close>

theorem read_failure_is_caught:
  assumes "read_result (files w p) = Inl e"
    and "p \<in> set (discovered w patterns)" and "candidate p"
  shows "update_file_content p table w =
           (False, emit (Print (ErrorUpdating p e)) (emit (OpenRead p) w)) \<and>
         (\<forall>s. world_of s = w \<longrightarrow>
            total_files (loop_body table p s) = total_files s + 1 \<and>
            updated_files (loop_body table p s) = updated_files s \<and>
            inner_loop table (p # rest) s = inner_loop table rest (loop_body table p s)) \<and>
         Print (ErrorUpdating p e) \<in> set (emitted w (run table patterns w)) \<and>
         Print (Updated p) \<notin> set (emitted w (run table patterns w)) \<and>
         OpenWrite p \<notin> set (emitted w (run table patterns w)) \<and>
         files (run table patterns w) p = files w p \<and>
         (\<exists>evs. emitted w (run table patterns w) =
            Print Starting # evs @
              [Print Completed,
               Print (Summary (int (length (filter is_updated evs)))
                  (1 + int (length (filter candidate (remove1 p (discovered w patterns)))))),
               Print Renamed] \<and>
            (\<forall>q \<in> set (discovered w patterns). candidate q \<longrightarrow> OpenRead q \<in> set evs))"
proof -
  let ?ps = "discovered w patterns"
  let ?s = "inner_loop table ?ps (start w)"
  have ufc: "update_file_content p table w =
               (False, emit (Print (ErrorUpdating p e)) (emit (OpenRead p) w))"
    using assms(1) by (simp add: ufc_read_error emit_def)
  have step: "\<forall>s. world_of s = w \<longrightarrow>
            total_files (loop_body table p s) = total_files s + 1 \<and>
            updated_files (loop_body table p s) = updated_files s \<and>
            inner_loop table (p # rest) s = inner_loop table rest (loop_body table p s)"
    using assms(1,3) by (auto simp: loop_body_unreadable)
  have r0: "read_result (files (world_of (start w)) p) = Inl e"
    using assms(1) by simp
  obtain evs' where evs':
    "events (world_of ?s) = events (world_of (start w)) @ evs'"
    "Print (Updated p) \<notin> set evs'" "OpenWrite p \<notin> set evs'"
    "p \<in> set ?ps \<and> candidate p \<longrightarrow> Print (ErrorUpdating p e) \<in> set evs'"
    "files (world_of ?s) p = files (world_of (start w)) p"
    using inner_loop_unreadable[OF r0, of table ?ps] by blast
  obtain evs where evs:
    "emitted w (run table patterns w) =
       Print Starting # evs @
         [Print Completed,
          Print (Summary (int (length (filter is_updated evs)))
                         (int (length (filter candidate ?ps)))),
          Print Renamed]"
    "\<forall>q \<in> set ?ps. candidate q \<longrightarrow> OpenRead q \<in> set evs"
    "events (world_of ?s) = events w @ Print Starting # evs"
    using run_events[of w table patterns] by blast
  from evs'(1) evs(3) have same: "evs' = evs" by simp
  have "p \<in> set (filter candidate ?ps)" using assms(2,3) by simp
  moreover from this have "0 < length (filter candidate ?ps)"
    by (rule length_pos_if_in_set)
  ultimately have "length (filter candidate ?ps) = Suc (length (remove1 p (filter candidate ?ps)))"
    by (simp only: length_remove1 if_True Suc_pred)
  then have total: "int (length (filter candidate ?ps)) =
                      1 + int (length (filter candidate (remove1 p ?ps)))"
    by (simp add: filter_remove1)
  have files: "files (run table patterns w) p = files w p"
    using evs'(5) by (simp add: run_flat finish_files)
  have in_run: "Print (ErrorUpdating p e) \<in> set (emitted w (run table patterns w))"
    "Print (Updated p) \<notin> set (emitted w (run table patterns w))"
    "OpenWrite p \<notin> set (emitted w (run table patterns w))"
    using evs'(2,3,4) assms(2,3) unfolding same evs(1) by simp_all
  have last: "\<exists>evs. emitted w (run table patterns w) =
            Print Starting # evs @
              [Print Completed,
               Print (Summary (int (length (filter is_updated evs)))
                  (1 + int (length (filter candidate (remove1 p ?ps))))),
               Print Renamed] \<and>
            (\<forall>q \<in> set ?ps. candidate q \<longrightarrow> OpenRead q \<in> set evs)"
    using evs(1,2) unfolding total by (intro exI[of _ evs]) simp
  show ?thesis
    by (intro conjI ufc step in_run files last)
qed

theorem read_failure_is_caught_witness:
  "read_result (files example_tree ''locked.md'') = Inl (OSError ''Permission denied'') \<and>
   ''locked.md'' \<in> set (discovered example_tree file_patterns) \<and> candidate ''locked.md'' \<and>
   update_file_content ''locked.md'' rename_table example_tree =
     (False, emit (Print (ErrorUpdating ''locked.md'' (OSError ''Permission denied'')))
        (emit (OpenRead ''locked.md'') example_tree)) \<and>
   Print (ErrorUpdating ''locked.md'' (OSError ''Permission denied''))
     \<in> set (emitted example_tree (run rename_table file_patterns example_tree)) \<and>
   Print (Updated ''locked.md'')
     \<notin> set (emitted example_tree (run rename_table file_patterns example_tree))"
proof -
  have r: "read_result (files example_tree ''locked.md'') = Inl (OSError ''Permission denied'')"
    by (simp add: example_tree_def md_tree_def denied_file_def read_result_def)
  have d: "''locked.md'' \<in> set (discovered example_tree file_patterns)"
    by (simp add: example_discovered)
  from read_failure_is_caught[OF r d candidate_locked, of rename_table] r d candidate_locked
  show ?thesis by blast
qed



text \<open>
  C7. A discovered path with a part (of \<^verbatim>\<open>Path.parts\<close>) that starts with a dot, or
  with a directory component named \<^verbatim>\<open>target\<close>, \<^verbatim>\<open>node_modules\<close>, \<^verbatim>\<open>.git\<close> or
  \<^verbatim>\<open>__pycache__\<close>, is skipped by every iteration that meets it: the run records no
  event about it (no open for reading, no open for writing, no line), its file is as
  before, and the total that the summary prints is the number of the candidates among
  the other discovered paths.
\<close>

theorem excluded_never_opened:
  assumes "is_hidden p \<or> in_reserved_dir p"
  shows "loop_body table p s = s \<and>
         OpenRead p \<notin> set (emitted w (run table patterns w)) \<and>
         OpenWrite p \<notin> set (emitted w (run table patterns w)) \<and>
         files (run table patterns w) p = files w p \<and>
         (\<exists>evs u. emitted w (run table patterns w) =
            evs @ [Print Completed,
                   Print (Summary u (int (length
                      (filter (\<lambda>q. q \<noteq> p \<and> candidate q) (discovered w patterns))))),
                   Print Renamed])"
proof -
  from assms have not_cand: "\<not> candidate p"
    by (auto simp: candidate_def in_reserved_dir_artifact)
  obtain evs where evs:
    "emitted w (run table patterns w) =
       Print Starting # evs @
         [Print Completed,
          Print (Summary (int (length (filter is_updated evs)))
                         (int (length (filter candidate (discovered w patterns))))),
          Print Renamed]"
    "\<forall>e \<in> set evs. \<forall>q. event_path e = Some q \<longrightarrow>
        q \<in> set (discovered w patterns) \<and> candidate q"
    using run_events[of w table patterns] by blast
  have no_event: "\<forall>e \<in> set (emitted w (run table patterns w)). event_path e \<noteq> Some p"
    using evs not_cand by auto
  have "event_path (OpenRead p) = Some p" "event_path (OpenWrite p) = Some p" by simp_all
  with no_event have opens: "OpenRead p \<notin> set (emitted w (run table patterns w))"
    "OpenWrite p \<notin> set (emitted w (run table patterns w))"
    by blast+
  have same: "filter candidate (discovered w patterns) =
                filter (\<lambda>q. q \<noteq> p \<and> candidate q) (discovered w patterns)"
    using not_cand by (intro filter_cong[OF refl]) auto
  have "files (run table patterns w) p = files w p"
    using not_cand by (simp add: run_flat finish_files inner_loop_files_other)
  moreover have "\<exists>evs u. emitted w (run table patterns w) =
            evs @ [Print Completed,
                   Print (Summary u (int (length
                      (filter (\<lambda>q. q \<noteq> p \<and> candidate q) (discovered w patterns))))),
                   Print Renamed]"
    using evs(1) unfolding same
    by (intro exI[of _ "Print Starting # evs"] exI[of _ "int (length (filter is_updated evs))"])
       simp
  ultimately show ?thesis
    using opens not_cand by (simp add: loop_body_skip)
qed

theorem excluded_never_opened_witness:
  "in_reserved_dir ''target/doc/index.md'' \<and>
   ''target/doc/index.md'' \<in> set (discovered example_tree file_patterns) \<and>
   OpenRead ''target/doc/index.md'' \<notin> set (emitted example_tree (main example_tree)) \<and>
   OpenWrite ''target/doc/index.md'' \<notin> set (emitted example_tree (main example_tree)) \<and>
   files (main example_tree) ''target/doc/index.md'' = files example_tree ''target/doc/index.md''"
proof -
  have r: "in_reserved_dir ''target/doc/index.md''"
    by (simp add: in_reserved_dir_def skip_list_def)
  have d: "''target/doc/index.md'' \<in> set (discovered example_tree file_patterns)"
    by (simp add: discovered_def example_tree_def md_tree_def file_patterns_def)
  from excluded_never_opened[of "''target/doc/index.md''" replacements _ example_tree file_patterns]
    r d
  show ?thesis unfolding main_def by blast
qed

text \<open>
  C8. The table holds the pair from \<^verbatim>\<open>a3mailer-server\<close> to \<^verbatim>\<open>mailserver-core\<close>, and
  its other pairs, before and after, have equal old and new strings, as those of the
  built-in table have. For a readable and writable candidate file with the text
  \<^verbatim>\<open>See a3mailer-server for details\<close>, \<^verbatim>\<open>update_file_content\<close> opens the file for
  reading and for writing, writes \<^verbatim>\<open>See mailserver-core for details\<close>, prints the
  \<^verbatim>\<open>Updated\<close> line and returns \<^verbatim>\<open>True\<close>, and the iteration of the loop adds one to
  the counter of updated files.
\<close>

theorem rename_scenario:
  assumes "map fst pre = map snd pre" and "map fst post = map snd post"
    and "table = pre @ (''a3mailer-server'', ''mailserver-core'') # post"
    and "read_result (files (world_of s) p) = Inr ''See a3mailer-server for details''"
    and "write_error (files (world_of s) p) = None"
    and "candidate p"
  shows "apply_replacements table ''See a3mailer-server for details'' =
           ''See mailserver-core for details'' \<and>
         fst (update_file_content p table (world_of s)) \<and>
         read_result (files (snd (update_file_content p table (world_of s))) p) =
           Inr ''See mailserver-core for details'' \<and>
         emitted (world_of s) (snd (update_file_content p table (world_of s))) =
           [OpenRead p, OpenWrite p, Print (Updated p)] \<and>
         updated_files (loop_body table p s) = updated_files s + 1 \<and>
         total_files (loop_body table p s) = total_files s + 1 \<and>
         read_result (files (world_of (loop_body table p s)) p) =
           Inr ''See mailserver-core for details''"
proof -
  have one: "str_replace ''a3mailer-server'' ''mailserver-core''
               ''See a3mailer-server for details'' = ''See mailserver-core for details''"
    by simp
  have app: "apply_replacements table ''See a3mailer-server for details'' =
               ''See mailserver-core for details''"
    unfolding assms(3)
    by (simp only: apply_replacements_append apply_replacements.simps
        apply_replacements_same[OF assms(1)] apply_replacements_same[OF assms(2)] one)
  have diff: "apply_replacements table ''See a3mailer-server for details'' \<noteq>
                ''See a3mailer-server for details''"
    unfolding app by simp
  have ufc: "update_file_content p table (world_of s) =
      (True, (world_of s)\<lparr>files := (files (world_of s))
                (p := (files (world_of s) p)\<lparr>decoded :=
                   Inr (apply_replacements table ''See a3mailer-server for details'')\<rparr>),
              events := events (world_of s) @ [OpenRead p, OpenWrite p, Print (Updated p)]\<rparr>)"
    using assms(4) diff assms(5) by (rule ufc_written)
  show ?thesis
    using assms(6) app
    by (simp add: ufc emitted_def loop_body_world loop_body_updated loop_body_total
        read_result_written)
qed

theorem rename_scenario_witness:
  "read_result (files (world_of (start example_tree)) ''notes.md'') =
     Inr ''See a3mailer-server for details'' \<and>
   write_error (files (world_of (start example_tree)) ''notes.md'') = None \<and>
   candidate ''notes.md'' \<and>
   fst (update_file_content ''notes.md'' rename_table (world_of (start example_tree))) \<and>
   updated_files (loop_body rename_table ''notes.md'' (start example_tree)) = 1 \<and>
   read_result (files (world_of (loop_body rename_table ''notes.md'' (start example_tree)))
       ''notes.md'') = Inr ''See mailserver-core for details''"
proof -
  have r: "read_result (files (world_of (start example_tree)) ''notes.md'') =
             Inr ''See a3mailer-server for details''"
    and w: "write_error (files (world_of (start example_tree)) ''notes.md'') = None"
    by (simp_all add: example_tree_def md_tree_def text_file_def read_result_def)
  have t: "rename_table = [] @ (''a3mailer-server'', ''mailserver-core'') # []"
    by (simp add: rename_table_def)
  have i: "map fst ([] :: (string \<times> string) list) = map snd ([] :: (string \<times> string) list)"
    by simp
  from rename_scenario[OF i i t r w candidate_notes] r w candidate_notes
  show ?thesis by simp
qed

text \<open>
  C9. At every point of the loops of \<^verbatim>\<open>main\<close> the counter of updated files is at most
  the counter of all files. The points are the states \<open>s\<close> reached in the inner loop of
  any pattern after any number of the paths of its glob (none: the head of the outer
  loop; all: the end of the inner loop) and, inside an iteration on a path, the state
  after line 101 has counted the path and the state after lines 102 and 103; in one
  iteration the first counter grows by no more than the second. The summary that the
  run prints carries the two counters of the final state, in this order.
\<close>

theorem counters_invariant:
  assumes "patterns = pats1 @ pattern # pats2"
    and "glob_recursive w pattern = ps1 @ ps2"
    and "s = inner_loop table ps1 (outer_loop table pats1 (start w))"
    and "final = outer_loop table patterns (start w)"
  shows "updated_files (start w) \<le> total_files (start w) \<and>
         updated_files s \<le> total_files s \<and>
         updated_files (count_file s) \<le> total_files (count_file s) \<and>
         updated_files (update_and_count table file_path (count_file s))
           \<le> total_files (update_and_count table file_path (count_file s)) \<and>
         updated_files (loop_body table file_path s) \<le> total_files (loop_body table file_path s) \<and>
         updated_files (loop_body table file_path s) - updated_files s
           \<le> total_files (loop_body table file_path s) - total_files s \<and>
         final = outer_loop table pats2 (inner_loop table ps2 s) \<and>
         updated_files final \<le> total_files final \<and>
         emitted w (run table patterns w) =
           emitted w (world_of final) @
             [Print Completed, Print (Summary (updated_files final) (total_files final)),
              Print Renamed]"
proof -
  have start: "updated_files (start w) \<le> total_files (start w)" by simp
  have s: "updated_files s \<le> total_files s"
    unfolding assms(3) by (intro inner_loop_le outer_loop_le start)
  have glob: "glob_recursive (world_of (outer_loop table pats1 (start w))) pattern = ps1 @ ps2"
    using assms(2) by (simp add: outer_loop_flat inner_loop_glob)
  have final: "final = outer_loop table pats2 (inner_loop table ps2 s)"
    unfolding assms(1,3,4) by (simp add: outer_loop_append glob inner_loop_append)
  have "prefix (events w) (events (world_of final))"
    using inner_loop_events[of table "discovered (world_of (start w)) patterns" "start w"]
    unfolding assms(4) by (auto simp: outer_loop_flat)
  then have "emitted w (run table patterns w) =
           emitted w (world_of final) @
             [Print Completed, Print (Summary (updated_files final) (total_files final)),
              Print Renamed]"
    unfolding assms(4) by (auto simp: run_def finish_events emitted_def prefix_def)
  moreover have "updated_files final \<le> total_files final"
    unfolding assms(4) by (intro outer_loop_le start)
  ultimately show ?thesis
    using s final
    by (simp add: loop_body_total loop_body_updated update_and_count_total
        update_and_count_updated)
qed

theorem counters_invariant_witness:
  "file_patterns = [''**/*.rs'', ''**/*.toml''] @ ''**/*.md'' #
      [''**/*.yml'', ''**/*.yaml'', ''**/*.json'', ''**/*.txt'', ''**/*.sh'', ''**/*.py''] \<and>
   glob_recursive example_tree ''**/*.md'' =
      [''notes.md''] @ [''docs/readme.md'', ''target/doc/index.md'', ''mytarget/a.md'', ''locked.md''] \<and>
   updated_files (loop_body rename_table ''docs/readme.md''
       (inner_loop rename_table [''notes.md'']
          (outer_loop rename_table [''**/*.rs'', ''**/*.toml''] (start example_tree))))
     \<le> total_files (loop_body rename_table ''docs/readme.md''
       (inner_loop rename_table [''notes.md'']
          (outer_loop rename_table [''**/*.rs'', ''**/*.toml''] (start example_tree)))) \<and>
   updated_files (outer_loop rename_table file_patterns (start example_tree))
     \<le> total_files (outer_loop rename_table file_patterns (start example_tree))"
proof -
  have p: "file_patterns = [''**/*.rs'', ''**/*.toml''] @ ''**/*.md'' #
      [''**/*.yml'', ''**/*.yaml'', ''**/*.json'', ''**/*.txt'', ''**/*.sh'', ''**/*.py'']"
    by (simp add: file_patterns_def)
  have g: "glob_recursive example_tree ''**/*.md'' =
      [''notes.md''] @ [''docs/readme.md'', ''target/doc/index.md'', ''mytarget/a.md'', ''locked.md'']"
    by (simp add: example_tree_def md_tree_def)
  from counters_invariant[OF p g refl refl, of rename_table "''docs/readme.md''"] p g
  show ?thesis by blast
qed

text \<open>
  C10. The second test of the loop is a substring test on the whole path: a path in
  which an entry of the skip list occurs anywhere is skipped, so the iteration leaves
  the state as it was (nothing opened, nothing counted). The path
  \<^verbatim>\<open>mytarget/lib.rs\<close> is one: no part of it is \<^verbatim>\<open>target\<close>, it is in no reserved
  directory and it is not hidden, yet it contains \<^verbatim>\<open>target/\<close>.
\<close>

theorem substring_exclusion:
  assumes "skip \<in> set skip_list" and "str_contains skip p"
  shows "is_build_artifact p \<and> loop_body table p s = s \<and>
         inner_loop table (p # rest) s = inner_loop table rest s \<and>
         set (path_parts ''mytarget/lib.rs'') \<inter> set (map butlast skip_list) = {} \<and>
         \<not> in_reserved_dir ''mytarget/lib.rs'' \<and> \<not> is_hidden ''mytarget/lib.rs'' \<and>
         loop_body table ''mytarget/lib.rs'' s = s"
proof -
  from assms have art: "is_build_artifact p"
    by (auto simp: is_build_artifact_def list_ex_iff)
  then have skip: "loop_body table p s = s"
    by (simp add: loop_body_def)
  have "is_build_artifact ''mytarget/lib.rs''"
    by (simp add: is_build_artifact_def skip_list_def)
  then have ex: "loop_body table ''mytarget/lib.rs'' s = s"
    by (simp add: loop_body_def)
  have parts: "path_parts ''mytarget/lib.rs'' = [''mytarget'', ''lib.rs'']"
    by (simp add: path_parts_def splitroot_def)
  have "\<not> is_hidden ''mytarget/lib.rs''"
    unfolding is_hidden_def parts by (simp add: startswith_def)
  moreover have "\<not> in_reserved_dir ''mytarget/lib.rs''"
    by (simp add: in_reserved_dir_def skip_list_def)
  moreover have "set (path_parts ''mytarget/lib.rs'') \<inter> set (map butlast skip_list) = {}"
    unfolding parts by (simp add: skip_list_def)
  ultimately show ?thesis using art skip ex by simp
qed

theorem substring_exclusion_witness:
  "''target/'' \<in> set skip_list \<and> str_contains ''target/'' ''mytarget/a.md'' \<and>
   ''target'' \<notin> set (path_parts ''mytarget/a.md'') \<and>
   loop_body rename_table ''mytarget/a.md'' (start example_tree) = start example_tree"
proof -
  have a: "''target/'' \<in> set skip_list" by (simp add: skip_list_def)
  have b: "str_contains ''target/'' ''mytarget/a.md''" by simp
  have c: "''target'' \<notin> set (path_parts ''mytarget/a.md'')"
    by (simp add: path_parts_def splitroot_def)
  from substring_exclusion[OF a b, of rename_table "start example_tree"] a b c
  show ?thesis by blast
qed

end
